theory Spec2Isabelle
  imports Main "HOL-Library.Log_Nat"
begin

section \<open>Go values as seen through package reflect\<close>

text \<open>
  The library (package guti, file list.go) works on values of type \<open>interface{}\<close> and
  inspects them with package reflect. A value is modelled together with the dynamic
  type it carries; \<open>reflect.Kind\<close> is the enumeration of package reflect.
\<close>

datatype kind =
    KInvalid | KBool
  | KInt | KInt8 | KInt16 | KInt32 | KInt64
  | KUint | KUint8 | KUint16 | KUint32 | KUint64 | KUintptr
  | KFloat32 | KFloat64
  | KInterface | KSlice | KString | KStruct

datatype ikind = I | I8 | I16 | I32 | I64

datatype ukind = U | U8 | U16 | U32 | U64 | Uptr

datatype fkind = F32 | F64

fun kind_of_ikind :: "ikind \<Rightarrow> kind" where
  "kind_of_ikind I = KInt"
| "kind_of_ikind I8 = KInt8"
| "kind_of_ikind I16 = KInt16"
| "kind_of_ikind I32 = KInt32"
| "kind_of_ikind I64 = KInt64"

fun kind_of_ukind :: "ukind \<Rightarrow> kind" where
  "kind_of_ukind U = KUint"
| "kind_of_ukind U8 = KUint8"
| "kind_of_ukind U16 = KUint16"
| "kind_of_ukind U32 = KUint32"
| "kind_of_ukind U64 = KUint64"
| "kind_of_ukind Uptr = KUintptr"

fun kind_of_fkind :: "fkind \<Rightarrow> kind" where
  "kind_of_fkind F32 = KFloat32"
| "kind_of_fkind F64 = KFloat64"

text \<open>
  Go types: the basic types, the empty interface, slices and struct types (a name and
  the declared fields, in declaration order).
\<close>

datatype gtype =
    BoolT
  | IntT ikind
  | UintT ukind
  | FloatT fkind
  | StringT
  | InterfaceT
  | SliceT gtype
  | StructT string "(string \<times> gtype) list"

fun kind_of_type :: "gtype \<Rightarrow> kind" where
  "kind_of_type BoolT = KBool"
| "kind_of_type (IntT k) = kind_of_ikind k"
| "kind_of_type (UintT k) = kind_of_ukind k"
| "kind_of_type (FloatT k) = kind_of_fkind k"
| "kind_of_type StringT = KString"
| "kind_of_type InterfaceT = KInterface"
| "kind_of_type (SliceT t) = KSlice"
| "kind_of_type (StructT n fs) = KStruct"

text \<open>
  A binary64 value: a finite number (held as the rational it denotes; \<open>Fin 0\<close> is the
  positive zero), the negative zero, an infinity (\<open>True\<close> for the negative one) or a
  NaN. A float32 is held as the binary64 value it converts to.
\<close>

datatype f64 = Fin rat | NegZero | Infty bool | NaN

text \<open>
  Values. \<open>NilV\<close> is the nil interface (no dynamic type). Numbers carry the width of
  their type, so that \<open>int8(3)\<close> and \<open>int64(3)\<close> are different values. A slice carries
  its static element type; \<open>NilSliceV\<close> is the nil slice of that type. A struct value
  carries its type name, its declared fields and the field values in the same order.
\<close>

datatype val =
    NilV
  | BoolV bool
  | IntV ikind int
  | UintV ukind nat
  | FloatV fkind f64
  | StringV string
  | StructV string "(string \<times> gtype) list" "val list"
  | NilSliceV gtype
  | SliceV gtype "val list"

text \<open>The ways a call can abort: the panics of list.go, of reflect and of the runtime.\<close>

datatype panic =
    PanicMsg string
  | NilDereference
  | IndexOutOfRange int nat
  | SliceBounds
  | ReflectKind string kind
  | TypeAssertion
  | UnexportedField

definition pbind :: "panic + 'a \<Rightarrow> ('a \<Rightarrow> panic + 'b) \<Rightarrow> panic + 'b" where
  "pbind m f = (case m of Inl e \<Rightarrow> Inl e | Inr x \<Rightarrow> f x)"

subsection \<open>reflect.TypeOf, reflect.ValueOf and the methods of reflect.Value\<close>

fun TypeOf :: "val \<Rightarrow> gtype option" where
  "TypeOf NilV = None"
| "TypeOf (BoolV b) = Some BoolT"
| "TypeOf (IntV k n) = Some (IntT k)"
| "TypeOf (UintV k n) = Some (UintT k)"
| "TypeOf (FloatV k x) = Some (FloatT k)"
| "TypeOf (StringV s) = Some StringT"
| "TypeOf (StructV n fs vs) = Some (StructT n fs)"
| "TypeOf (NilSliceV t) = Some (SliceT t)"
| "TypeOf (SliceV t xs) = Some (SliceT t)"

text \<open>
  A value is well-formed when every element of a slice and every field of a struct is
  well-formed and has the static type of its place; a place of interface type takes
  any well-formed value, the nil interface too.
\<close>

fun wf_val :: "val \<Rightarrow> bool" and wf_at :: "gtype \<Rightarrow> val \<Rightarrow> bool"
  and wf_elems :: "gtype \<Rightarrow> val list \<Rightarrow> bool"
  and wf_fields :: "(string \<times> gtype) list \<Rightarrow> val list \<Rightarrow> bool" where
  "wf_val (StructV n fs vs) = wf_fields fs vs"
| "wf_val (SliceV t xs) = wf_elems t xs"
| "wf_val v = True"
| "wf_at t v = (wf_val v \<and> (t = InterfaceT \<or> TypeOf v = Some t))"
| "wf_elems t [] = True"
| "wf_elems t (x # xs) = (wf_at t x \<and> wf_elems t xs)"
| "wf_fields [] vs = (vs = [])"
| "wf_fields (f # fs) [] = False"
| "wf_fields (f # fs) (v # vs) = (wf_at (snd f) v \<and> wf_fields fs vs)"

text \<open>
  A \<open>reflect.Value\<close>: the zero Value, or a value together with the static type of
  the place it was taken from (for the result of \<open>ValueOf\<close>, the dynamic type).
\<close>

datatype rvalue = Invalid | RV gtype val

definition ValueOf :: "val \<Rightarrow> rvalue" where
  "ValueOf v = (case TypeOf v of None \<Rightarrow> Invalid | Some t \<Rightarrow> RV t v)"

fun Kind :: "rvalue \<Rightarrow> kind" where
  "Kind Invalid = KInvalid"
| "Kind (RV t v) = kind_of_type t"

text \<open>\<open>reflect.TypeOf(x).Kind()\<close>: \<open>TypeOf(nil)\<close> is the nil Type, whose method call panics.\<close>

definition TypeOf_Kind :: "val \<Rightarrow> panic + kind" where
  "TypeOf_Kind v = (case TypeOf v of None \<Rightarrow> Inl NilDereference | Some t \<Rightarrow> Inr (kind_of_type t))"

fun Len :: "rvalue \<Rightarrow> panic + nat" where
  "Len (RV t (SliceV u xs)) = (if kind_of_type t = KSlice then Inr (length xs) else Inl (ReflectKind ''Len'' (kind_of_type t)))"
| "Len (RV t (NilSliceV u)) = (if kind_of_type t = KSlice then Inr 0 else Inl (ReflectKind ''Len'' (kind_of_type t)))"
| "Len (RV t (StringV s)) = (if kind_of_type t = KString then Inr (length s) else Inl (ReflectKind ''Len'' (kind_of_type t)))"
| "Len r = Inl (ReflectKind ''Len'' (Kind r))"

text \<open>\<open>v.Index(i)\<close>: the element of a slice at its static type, the byte of a string.\<close>

fun Index :: "rvalue \<Rightarrow> int \<Rightarrow> panic + rvalue" where
  "Index (RV t (SliceV u xs)) i =
     (if kind_of_type t \<noteq> KSlice then Inl (ReflectKind ''Index'' (kind_of_type t))
      else if 0 \<le> i \<and> i < int (length xs) then Inr (RV u (xs ! nat i))
      else Inl (IndexOutOfRange i (length xs)))"
| "Index (RV t (NilSliceV u)) i =
     (if kind_of_type t \<noteq> KSlice then Inl (ReflectKind ''Index'' (kind_of_type t))
      else Inl (IndexOutOfRange i 0))"
| "Index (RV t (StringV s)) i =
     (if kind_of_type t \<noteq> KString then Inl (ReflectKind ''Index'' (kind_of_type t))
      else if 0 \<le> i \<and> i < int (length s) then Inr (RV (UintT U8) (UintV U8 (of_char (s ! nat i))))
      else Inl (IndexOutOfRange i (length s)))"
| "Index r i = Inl (ReflectKind ''Index'' (Kind r))"

text \<open>\<open>v.Interface()\<close>: the value as an \<open>interface{}\<close>; an interface-typed place gives what it holds.\<close>

fun Interface :: "rvalue \<Rightarrow> panic + val" where
  "Interface Invalid = Inl (ReflectKind ''Interface'' KInvalid)"
| "Interface (RV t v) = Inr v"

definition int_kinds :: "kind set" where
  "int_kinds = {KInt, KInt8, KInt16, KInt32, KInt64}"

definition uint_kinds :: "kind set" where
  "uint_kinds = {KUint, KUint8, KUint16, KUint32, KUint64}"

definition float_kinds :: "kind set" where
  "float_kinds = {KFloat32, KFloat64}"

text \<open>
  The getters panic when the Value's kind is not theirs. \<open>Uint\<close> accepts \<open>Uintptr\<close>
  as well; \<open>String\<close> never panics (on another kind it returns a description).
\<close>

fun Int_of :: "rvalue \<Rightarrow> panic + int" where
  "Int_of (RV t (IntV k n)) =
     (if kind_of_type t \<in> int_kinds then Inr n else Inl (ReflectKind ''Int'' (kind_of_type t)))"
| "Int_of r = Inl (ReflectKind ''Int'' (Kind r))"

fun Uint_of :: "rvalue \<Rightarrow> panic + nat" where
  "Uint_of (RV t (UintV k n)) =
     (if kind_of_type t \<in> insert KUintptr uint_kinds then Inr n
      else Inl (ReflectKind ''Uint'' (kind_of_type t)))"
| "Uint_of r = Inl (ReflectKind ''Uint'' (Kind r))"

fun Float_of :: "rvalue \<Rightarrow> panic + f64" where
  "Float_of (RV t (FloatV k x)) =
     (if kind_of_type t \<in> float_kinds then Inr x else Inl (ReflectKind ''Float'' (kind_of_type t)))"
| "Float_of r = Inl (ReflectKind ''Float'' (Kind r))"

fun Bool_of :: "rvalue \<Rightarrow> panic + bool" where
  "Bool_of (RV t (BoolV b)) =
     (if kind_of_type t = KBool then Inr b else Inl (ReflectKind ''Bool'' (kind_of_type t)))"
| "Bool_of r = Inl (ReflectKind ''Bool'' (Kind r))"

fun String_of :: "rvalue \<Rightarrow> string" where
  "String_of (RV t (StringV s)) = (if kind_of_type t = KString then s else ''<Value>'')"
| "String_of r = ''<Value>''"

section \<open>Machine numbers\<close>

text \<open>
  Go's \<open>int\<close> is 64 bits wide on the platforms the library targets; arithmetic wraps.
\<close>

definition wrap64 :: "int \<Rightarrow> int" where
  "wrap64 x = (x + 2 ^ 63) mod 2 ^ 64 - 2 ^ 63"

definition pow2 :: "int \<Rightarrow> rat" where
  "pow2 e = (if 0 \<le> e then 2 ^ nat e else 1 / 2 ^ nat (- e))"

text \<open>The integer part of the binary logarithm of a positive rational.\<close>

definition flog2 :: "rat \<Rightarrow> int" where
  "flog2 a =
     (if 1 \<le> a then int (floorlog 2 (nat \<lfloor>a\<rfloor>)) - 1
      else - int (floorlog 2 (nat (\<lceil>1 / a\<rceil> - 1))))"

definition round_half_even :: "rat \<Rightarrow> int" where
  "round_half_even x =
     (let f = \<lfloor>x\<rfloor>; d = x - of_int f
      in if d < 1 / 2 then f else if 1 / 2 < d then f + 1 else if even f then f else f + 1)"

text \<open>
  Rounding a real number to binary64, to nearest with ties to even: 53 bits of
  significand \<open>m\<close>, the exponent \<open>e\<close> of the last place no less than \<open>-1074\<close>, and
  an infinity once the rounded magnitude \<open>m * 2 ^ e\<close> reaches \<open>2 ^ 1024\<close>.
\<close>

definition f64_round :: "rat \<Rightarrow> f64" where
  "f64_round r =
     (if r = 0 then Fin 0
      else let a = \<bar>r\<bar>;
               e = max (flog2 a - 52) (- 1074);
               m = round_half_even (a / pow2 e)
           in if 971 < e \<or> (e = 971 \<and> m = 2 ^ 53) then Infty (r < 0)
              else if m = 0 then (if r < 0 then NegZero else Fin 0)
              else Fin ((if r < 0 then - 1 else 1) * of_int m * pow2 e))"

fun f64_val :: "f64 \<Rightarrow> rat" where
  "f64_val (Fin r) = r"
| "f64_val x = 0"

text \<open>
  Subtraction. An exact zero difference is the positive zero, except
  \<open>(-0) - (+0) = -0\<close>; every other finite difference is rounded.
\<close>

definition f64_sub :: "f64 \<Rightarrow> f64 \<Rightarrow> f64" where
  "f64_sub x y =
     (if x = NaN \<or> y = NaN then NaN
      else case (x, y) of
        (Infty s, Infty t) \<Rightarrow> (if s = t then NaN else Infty s)
      | (Infty s, _) \<Rightarrow> Infty s
      | (_, Infty t) \<Rightarrow> Infty (\<not> t)
      | _ \<Rightarrow> (let d = f64_val x - f64_val y
              in if d = 0 then (if x = NegZero \<and> y = Fin 0 then NegZero else Fin 0)
                 else f64_round d))"

fun f64_abs :: "f64 \<Rightarrow> f64" where
  "f64_abs (Fin r) = Fin \<bar>r\<bar>"
| "f64_abs NegZero = Fin 0"
| "f64_abs (Infty s) = Infty False"
| "f64_abs NaN = NaN"

text \<open>The comparisons \<open><\<close> and \<open>==\<close>: false whenever an operand is a NaN; the zeros are equal.\<close>

fun f64_less :: "f64 \<Rightarrow> f64 \<Rightarrow> bool" where
  "f64_less NaN y = False"
| "f64_less x NaN = False"
| "f64_less (Infty s) (Infty t) = (s \<and> \<not> t)"
| "f64_less (Infty s) y = s"
| "f64_less x (Infty t) = (\<not> t)"
| "f64_less x y = (f64_val x < f64_val y)"

fun f64_eq :: "f64 \<Rightarrow> f64 \<Rightarrow> bool" where
  "f64_eq NaN y = False"
| "f64_eq x NaN = False"
| "f64_eq (Infty s) (Infty t) = (s = t)"
| "f64_eq (Infty s) y = False"
| "f64_eq x (Infty t) = False"
| "f64_eq x y = (f64_val x = f64_val y)"

text \<open>
  \<open>math.Min\<close>: a negative infinity wins, then a NaN, and the negative zero is below
  the positive one.
\<close>

definition math_Min :: "f64 \<Rightarrow> f64 \<Rightarrow> f64" where
  "math_Min x y =
     (if x = Infty True \<or> y = Infty True then Infty True
      else if x = NaN \<or> y = NaN then NaN
      else if f64_eq x (Fin 0) \<and> f64_eq y (Fin 0) then (if x = NegZero then x else y)
      else if f64_less x y then x else y)"

text \<open>The conversion \<open>float64(n)\<close> of an \<open>int\<close> rounds.\<close>

definition float64_of_int :: "int \<Rightarrow> f64" where
  "float64_of_int n = f64_round (of_int n)"

text \<open>
  The conversion \<open>int(x)\<close> of a float64 drops the fraction. The language leaves the
  result open when the value does not fit; the amd64 instruction then yields the
  smallest \<open>int\<close>, which is what is written here.
\<close>

definition int_of_float64 :: "f64 \<Rightarrow> int" where
  "int_of_float64 x =
     (case x of
        Fin r \<Rightarrow> (let t = (if 0 \<le> r then \<lfloor>r\<rfloor> else \<lceil>r\<rceil>)
                  in if - (2 ^ 63) \<le> t \<and> t < 2 ^ 63 then t else - (2 ^ 63))
      | NegZero \<Rightarrow> 0
      | _ \<Rightarrow> - (2 ^ 63))"

section \<open>IsExist\<close>

text \<open>
  \<open>reflect.DeepEqual\<close> belongs to the standard library; it is written here after its
  documentation, for the values of this model: two nil interfaces are equal, a nil one
  never equals another value, values of different types are never equal, numbers,
  strings and booleans compare with \<open>==\<close>, structs field by field, slices element by
  element, and a nil slice differs from an empty one. Values carry no addresses, so the
  shortcut of \<open>reflect.DeepEqual\<close> for two slices that share their backing array is not
  written: it changes the answer only when the shared array holds a NaN (elsewhere the
  comparison element by element gives true as well), and every property below that
  rests on \<open>DeepEqual\<close> is stated for a first argument that holds no NaN.
\<close>

fun DeepEqual :: "val \<Rightarrow> val \<Rightarrow> bool"
  and DeepEqual_all :: "val list \<Rightarrow> val list \<Rightarrow> bool" where
  "DeepEqual NilV y = (y = NilV)"
| "DeepEqual (BoolV a) y = (case y of BoolV b \<Rightarrow> a = b | _ \<Rightarrow> False)"
| "DeepEqual (IntV k a) y = (case y of IntV l b \<Rightarrow> k = l \<and> a = b | _ \<Rightarrow> False)"
| "DeepEqual (UintV k a) y = (case y of UintV l b \<Rightarrow> k = l \<and> a = b | _ \<Rightarrow> False)"
| "DeepEqual (FloatV k a) y = (case y of FloatV l b \<Rightarrow> k = l \<and> f64_eq a b | _ \<Rightarrow> False)"
| "DeepEqual (StringV a) y = (case y of StringV b \<Rightarrow> a = b | _ \<Rightarrow> False)"
| "DeepEqual (StructV n fs vs) y =
     (case y of StructV m gs ws \<Rightarrow> n = m \<and> fs = gs \<and> DeepEqual_all vs ws | _ \<Rightarrow> False)"
| "DeepEqual (NilSliceV t) y = (case y of NilSliceV u \<Rightarrow> t = u | _ \<Rightarrow> False)"
| "DeepEqual (SliceV t xs) y =
     (case y of SliceV u ys \<Rightarrow> t = u \<and> DeepEqual_all xs ys | _ \<Rightarrow> False)"
| "DeepEqual_all [] ys = (ys = [])"
| "DeepEqual_all (x # xs) ys =
     (case ys of [] \<Rightarrow> False | y # ys' \<Rightarrow> DeepEqual x y \<and> DeepEqual_all xs ys')"

text \<open>The constant \<open>epsilon = 1e-6\<close>, converted to float64 where it is compared.\<close>

definition epsilon :: f64 where
  "epsilon = f64_round (1 / 1000000)"

text \<open>
  One pass through the body of the loop of \<open>IsExist\<close> at index \<open>i\<close>: \<open>Inr True\<close> when
  the body returns true, \<open>Inr False\<close> when it goes on to the next index (by
  \<open>continue\<close> or by falling out of the \<open>switch\<close>).
\<close>

definition IsExist_body :: "val \<Rightarrow> rvalue \<Rightarrow> int \<Rightarrow> panic + bool" where
  "IsExist_body what s i =
     pbind (Index s i) (\<lambda>e.
     pbind (TypeOf_Kind what) (\<lambda>wk.
       if Kind e \<noteq> wk then Inr False
       else if Kind e \<in> int_kinds then
         pbind (Int_of e) (\<lambda>a. pbind (Int_of (ValueOf what)) (\<lambda>b. Inr (a = b)))
       else if Kind e \<in> uint_kinds then
         pbind (Uint_of e) (\<lambda>a. pbind (Uint_of (ValueOf what)) (\<lambda>b. Inr (a = b)))
       else if Kind e \<in> float_kinds then
         pbind (Float_of e) (\<lambda>a. pbind (Float_of (ValueOf what)) (\<lambda>b.
           Inr (f64_less (f64_abs (f64_sub a b)) epsilon)))
       else if Kind e = KString then
         Inr (String_of e = String_of (ValueOf what))
       else if Kind e = KBool then
         pbind (Bool_of e) (\<lambda>a. pbind (Bool_of (ValueOf what)) (\<lambda>b. Inr (a = b)))
       else
         pbind (Interface e) (\<lambda>x. Inr (DeepEqual what x))))"

function IsExist_loop :: "val \<Rightarrow> rvalue \<Rightarrow> int \<Rightarrow> panic + bool" where
  "IsExist_loop what s i =
     (case Len s of
        Inl e \<Rightarrow> Inl e
      | Inr n \<Rightarrow>
          if i < int n then
            (case IsExist_body what s i of
               Inl e \<Rightarrow> Inl e
             | Inr found \<Rightarrow> if found then Inr True else IsExist_loop what s (i + 1))
          else Inr False)"
  by pat_completeness auto
termination
  by (relation "measure (\<lambda>(what, s, i). case Len s of Inl e \<Rightarrow> 0 | Inr n \<Rightarrow> nat (int n - i))")
    auto

definition IsExist :: "val \<Rightarrow> val \<Rightarrow> panic + bool" where
  "IsExist what inp =
     (let s = ValueOf inp
      in if Kind s \<noteq> KSlice then Inl (PanicMsg ''IsExist: Second argument must be a slice'')
         else IsExist_loop what s 0)"

declare IsExist_loop.simps [simp del]



text \<open>The elements of a sequence and their static type.\<close>

fun elems :: "val \<Rightarrow> val list" where
  "elems (SliceV t xs) = xs"
| "elems v = []"


definition is_slice :: "val \<Rightarrow> bool" where
  "is_slice v = (Kind (ValueOf v) = KSlice)"



subsection \<open>The equality policy in the words of the specification\<close>











section \<open>Reverse\<close>

text \<open>
  \<open>Reverse\<close> takes a \<open>[]interface{}\<close>, allocates the result with \<open>make\<close> and writes
  into it. To see that the argument is left alone, slices live in a store of backing
  arrays: a slice is the address of its array, \<open>make\<close> appends a fresh array of nil
  interfaces to the store.
\<close>

type_synonym store = "val list list"

definition make_slice :: "store \<Rightarrow> nat \<Rightarrow> nat \<times> store" where
  "make_slice h n = (length h, h @ [replicate n NilV])"

definition index_read :: "store \<Rightarrow> nat \<Rightarrow> int \<Rightarrow> panic + val" where
  "index_read h a i =
     (if 0 \<le> i \<and> i < int (length (h ! a)) then Inr (h ! a ! nat i)
      else Inl (IndexOutOfRange i (length (h ! a))))"

definition index_write :: "store \<Rightarrow> nat \<Rightarrow> int \<Rightarrow> val \<Rightarrow> panic + store" where
  "index_write h a i v =
     (if 0 \<le> i \<and> i < int (length (h ! a)) then Inr (h[a := (h ! a)[nat i := v]])
      else Inl (IndexOutOfRange i (length (h ! a))))"

text \<open>
  The loop \<open>for i, j := 0, len(slice)-1; i <= j; i, j = i+1, j-1\<close> with the body
  \<open>result[i], result[j] = slice[j], slice[i]\<close>: both right-hand sides are read before
  the first write.
\<close>

function Reverse_loop :: "store \<Rightarrow> nat \<Rightarrow> nat \<Rightarrow> int \<Rightarrow> int \<Rightarrow> panic + store" where
  "Reverse_loop h slice result i j =
     (if i \<le> j then
        (case index_read h slice j of Inl e \<Rightarrow> Inl e | Inr x \<Rightarrow>
        (case index_read h slice i of Inl e \<Rightarrow> Inl e | Inr y \<Rightarrow>
        (case index_write h result i x of Inl e \<Rightarrow> Inl e | Inr h1 \<Rightarrow>
        (case index_write h1 result j y of Inl e \<Rightarrow> Inl e | Inr h2 \<Rightarrow>
           Reverse_loop h2 slice result (i + 1) (j - 1)))))
      else Inr h)"
  by pat_completeness auto
termination
  by (relation "measure (\<lambda>(h, slice, result, i, j). nat (j - i + 1))") auto

definition Reverse :: "store \<Rightarrow> nat \<Rightarrow> panic + (nat \<times> store)" where
  "Reverse h slice =
     (case make_slice h (length (h ! slice)) of (result, h1) \<Rightarrow>
        (case Reverse_loop h1 slice result 0 (int (length (h ! slice)) - 1) of
           Inl e \<Rightarrow> Inl e
         | Inr h2 \<Rightarrow> Inr (result, h2)))"

declare Reverse_loop.simps [simp del]

text \<open>
  The result array while the loop runs: the positions from \<open>i\<close> to \<open>j\<close> as they will
  be once the loop is over, the others as they are now.
\<close>

definition mixed :: "val list \<Rightarrow> val list \<Rightarrow> int \<Rightarrow> int \<Rightarrow> val list" where
  "mixed src old i j =
     map (\<lambda>k. if i \<le> int k \<and> int k \<le> j then src ! (length src - 1 - k) else old ! k)
       [0..<length src]"

section \<open>MapReduce\<close>

text \<open>
  The callbacks are Go functions on \<open>interface{}\<close>; a call returns a value or panics
  (a failed type assertion in the body, a nil function).
\<close>

type_synonym mapper = "val \<Rightarrow> panic + val"

type_synonym reducer = "val \<Rightarrow> val \<Rightarrow> panic + val"

text \<open>The operand of \<open>append\<close> in the first loop: \<open>mapper(itemsValue.Index(i).Interface())\<close>.\<close>

definition MapReduce_item :: "rvalue \<Rightarrow> mapper \<Rightarrow> int \<Rightarrow> panic + val" where
  "MapReduce_item itemsValue mapper i =
     pbind (Index itemsValue i) (\<lambda>e. pbind (Interface e) mapper)"

function MapReduce_map_loop :: "rvalue \<Rightarrow> mapper \<Rightarrow> int \<Rightarrow> val list \<Rightarrow> panic + val list" where
  "MapReduce_map_loop itemsValue mapper i mappedItems =
     (case Len itemsValue of
        Inl e \<Rightarrow> Inl e
      | Inr n \<Rightarrow>
          if i < int n then
            (case MapReduce_item itemsValue mapper i of
               Inl e \<Rightarrow> Inl e
             | Inr y \<Rightarrow> MapReduce_map_loop itemsValue mapper (i + 1) (mappedItems @ [y]))
          else Inr mappedItems)"
  by pat_completeness auto
termination
  by (relation "measure (\<lambda>(s, f, i, acc). case Len s of Inl e \<Rightarrow> 0 | Inr n \<Rightarrow> nat (int n - i))")
    auto

function MapReduce_reduce_loop :: "reducer \<Rightarrow> val list \<Rightarrow> int \<Rightarrow> val \<Rightarrow> panic + val" where
  "MapReduce_reduce_loop reducer mappedItems i reducedResult =
     (if i < int (length mappedItems) then
        (case reducer reducedResult (mappedItems ! nat i) of
           Inl e \<Rightarrow> Inl e
         | Inr r \<Rightarrow> MapReduce_reduce_loop reducer mappedItems (i + 1) r)
      else Inr reducedResult)"
  by pat_completeness auto
termination
  by (relation "measure (\<lambda>(f, ys, i, r). nat (int (length ys) - i))") auto

text \<open>\<open>mappedItems[0]\<close> is a runtime panic when the slice is empty.\<close>

definition MapReduce :: "val \<Rightarrow> mapper \<Rightarrow> reducer \<Rightarrow> panic + val" where
  "MapReduce items mapper reducer =
     (case MapReduce_map_loop (ValueOf items) mapper 0 [] of
        Inl e \<Rightarrow> Inl e
      | Inr mappedItems \<Rightarrow>
          if 0 < length mappedItems then
            MapReduce_reduce_loop reducer mappedItems 1 (mappedItems ! 0)
          else Inl (IndexOutOfRange 0 (length mappedItems)))"

declare MapReduce_map_loop.simps [simp del] MapReduce_reduce_loop.simps [simp del]

text \<open>
  The contract in the words of the specification: the mapped sequence is the mapper
  applied to every element in order, and the result is the left fold of the mapped
  sequence with the reducer, seeded with the first mapped element. A panic of a
  callback ends the call.
\<close>

fun map_in_order :: "mapper \<Rightarrow> val list \<Rightarrow> panic + val list" where
  "map_in_order f [] = Inr []"
| "map_in_order f (x # xs) =
     (case f x of
        Inl e \<Rightarrow> Inl e
      | Inr y \<Rightarrow> (case map_in_order f xs of Inl e \<Rightarrow> Inl e | Inr ys \<Rightarrow> Inr (y # ys)))"

fun fold_left :: "reducer \<Rightarrow> val \<Rightarrow> val list \<Rightarrow> panic + val" where
  "fold_left g acc [] = Inr acc"
| "fold_left g acc (y # ys) = (case g acc y of Inl e \<Rightarrow> Inl e | Inr r \<Rightarrow> fold_left g r ys)"

definition map_then_fold :: "mapper \<Rightarrow> reducer \<Rightarrow> val list \<Rightarrow> panic + val" where
  "map_then_fold f g xs =
     (case map_in_order f xs of
        Inl e \<Rightarrow> Inl e
      | Inr ys \<Rightarrow> fold_left g (hd ys) (tl ys))"

text \<open>
  The callbacks of the specification's example, "double" and "sum" on \<open>int\<close>:
  \<open>func(x interface{}) interface{} { return x.(int) * 2 }\<close> and
  \<open>func(a, b interface{}) interface{} { return a.(int) + b.(int) }\<close>.
\<close>

fun double_int :: mapper where
  "double_int (IntV I n) = Inr (IntV I (wrap64 (n * 2)))"
| "double_int v = Inl TypeAssertion"

fun sum_int :: reducer where
  "sum_int (IntV I a) (IntV I b) = Inr (IntV I (wrap64 (a + b)))"
| "sum_int a b = Inl TypeAssertion"

section \<open>Batch\<close>

text \<open>
  \<open>v.Slice(i, j)\<close> of package reflect: the elements from \<open>i\<close> up to \<open>j\<close>, and a panic
  when the bounds are not in order or \<open>j\<close> is beyond the capacity (taken here to be the
  length).
\<close>

fun Slice :: "rvalue \<Rightarrow> int \<Rightarrow> int \<Rightarrow> panic + rvalue" where
  "Slice (RV t (SliceV u xs)) i j =
     (if kind_of_type t \<noteq> KSlice then Inl (ReflectKind ''Slice'' (kind_of_type t))
      else if i < 0 \<or> j < i \<or> int (length xs) < j then Inl SliceBounds
      else Inr (RV t (SliceV u (take (nat (j - i)) (drop (nat i) xs)))))"
| "Slice (RV t (NilSliceV u)) i j =
     (if kind_of_type t \<noteq> KSlice then Inl (ReflectKind ''Slice'' (kind_of_type t))
      else if i < 0 \<or> j < i \<or> 0 < j then Inl SliceBounds
      else Inr (RV t (NilSliceV u)))"
| "Slice (RV t (StringV s)) i j =
     (if kind_of_type t \<noteq> KString then Inl (ReflectKind ''Slice'' (kind_of_type t))
      else if i < 0 \<or> j < i \<or> int (length s) < j then Inl SliceBounds
      else Inr (RV t (StringV (take (nat (j - i)) (drop (nat i) s)))))"
| "Slice r i j = Inl (ReflectKind ''Slice'' (Kind r))"

text \<open>
  \<open>ConvertSliceInterfaceToSlice\<close>: \<open>s := make([]interface{}, slice.Len())\<close>, then
  \<open>s[i] = slice.Index(i).Interface()\<close> for every index.
\<close>

function ConvertSliceInterfaceToSlice_loop :: "rvalue \<Rightarrow> int \<Rightarrow> val list \<Rightarrow> panic + val list" where
  "ConvertSliceInterfaceToSlice_loop slice i s =
     (case Len slice of
        Inl e \<Rightarrow> Inl e
      | Inr n \<Rightarrow>
          if i < int n then
            (case pbind (Index slice i) Interface of
               Inl e \<Rightarrow> Inl e
             | Inr v \<Rightarrow>
                 if 0 \<le> i \<and> i < int (length s)
                 then ConvertSliceInterfaceToSlice_loop slice (i + 1) (s[nat i := v])
                 else Inl (IndexOutOfRange i (length s)))
          else Inr s)"
  by pat_completeness auto
termination
  by (relation "measure (\<lambda>(v, i, s). case Len v of Inl e \<Rightarrow> 0 | Inr n \<Rightarrow> nat (int n - i))")
    auto

definition ConvertSliceInterfaceToSlice :: "rvalue \<Rightarrow> panic + val list" where
  "ConvertSliceInterfaceToSlice slice =
     (case Len slice of
        Inl e \<Rightarrow> Inl e
      | Inr n \<Rightarrow> ConvertSliceInterfaceToSlice_loop slice 0 (replicate n NilV))"

declare ConvertSliceInterfaceToSlice_loop.simps [simp del]

text \<open>\<open>int(math.Min(float64(a), float64(b)))\<close>, as both places of \<open>Batch\<close> compute it.\<close>

definition min_via_float64 :: "int \<Rightarrow> int \<Rightarrow> int" where
  "min_via_float64 a b = int_of_float64 (math_Min (float64_of_int a) (float64_of_int b))"

text \<open>
  The loop of \<open>Batch\<close>. Nothing bounds the number of iterations when \<open>batchSize\<close> does
  not move the index forward, so the loop is a partial function: \<open>None\<close> stands for a
  call that does not return.
\<close>

partial_function (option) Batch_loop ::
  "rvalue \<Rightarrow> int \<Rightarrow> int \<Rightarrow> val list list \<Rightarrow> (panic + val list list) option" where
  "Batch_loop itemsValue batchSize i batches =
     (case Len itemsValue of
        Inl e \<Rightarrow> Some (Inl e)
      | Inr n \<Rightarrow>
          if i < int n then
            (case Slice itemsValue i (min_via_float64 (wrap64 (i + batchSize)) (int n)) of
               Inl e \<Rightarrow> Some (Inl e)
             | Inr sub \<Rightarrow>
                 (case ConvertSliceInterfaceToSlice sub of
                    Inl e \<Rightarrow> Some (Inl e)
                  | Inr b \<Rightarrow>
                      Batch_loop itemsValue batchSize (wrap64 (i + batchSize)) (batches @ [b])))
          else Some (Inr batches))"

declare Batch_loop.simps [code]

definition Batch :: "val \<Rightarrow> int \<Rightarrow> (panic + val list list) option" where
  "Batch items batchSize =
     (case Len (ValueOf items) of
        Inl e \<Rightarrow> Some (Inl e)
      | Inr n \<Rightarrow>
          Batch_loop (ValueOf items) (min_via_float64 batchSize (int n)) 0 [])"

text \<open>
  Consecutive sub-sequences of \<open>k\<close> elements each, the last one with what is left: the
  partition the specification describes.
\<close>

function chunks :: "nat \<Rightarrow> 'a list \<Rightarrow> 'a list list" where
  "chunks k xs = (if k = 0 \<or> xs = [] then [] else take k xs # chunks k (drop k xs))"
  by pat_completeness auto
termination
  by (relation "measure (\<lambda>(k, xs). length xs)") auto

declare chunks.simps [simp del]

section \<open>SaveAsCSV\<close>

text \<open>
  The destination lives in a file system. \<open>os.Create\<close> either fails with an error
  (the file system says for which names, and with which error) or leaves an empty file
  under the name. A file records the rows handed to the \<open>csv.Writer\<close> on it, whether
  the writer was flushed, and whether the file was closed.
\<close>

datatype os_error = PathError string string

record file_state =
  records :: "string list list"
  is_flushed :: bool
  is_closed :: bool

record fsys =
  create_error :: "string \<Rightarrow> os_error option"
  files :: "string \<Rightarrow> file_state option"

definition os_Create :: "fsys \<Rightarrow> string \<Rightarrow> os_error + fsys" where
  "os_Create fs name =
     (case create_error fs name of
        Some err \<Rightarrow> Inl err
      | None \<Rightarrow>
          Inr (fs\<lparr>files := (files fs)(name \<mapsto> \<lparr>records = [], is_flushed = False, is_closed = False\<rparr>)\<rparr>))"

text \<open>\<open>reflect.TypeOf(data).Elem()\<close>: the element type of a slice type; a panic for the
  nil Type and for the types that have no element type.\<close>

fun Elem :: "gtype option \<Rightarrow> panic + gtype" where
  "Elem None = Inl NilDereference"
| "Elem (Some (SliceT t)) = Inr t"
| "Elem (Some t) = Inl (ReflectKind ''Elem'' (kind_of_type t))"

fun NumField :: "gtype \<Rightarrow> panic + nat" where
  "NumField (StructT n fs) = Inr (length fs)"
| "NumField t = Inl (ReflectKind ''NumField'' (kind_of_type t))"

text \<open>\<open>dataType.Field(i).Name\<close>.\<close>

fun Field_Name :: "gtype \<Rightarrow> int \<Rightarrow> panic + string" where
  "Field_Name (StructT n fs) i =
     (if 0 \<le> i \<and> i < int (length fs) then Inr (fst (fs ! nat i))
      else Inl (IndexOutOfRange i (length fs)))"
| "Field_Name t i = Inl (ReflectKind ''Field'' (kind_of_type t))"

text \<open>A field is exported when its name starts with an upper-case letter (ASCII here).\<close>

definition exported :: "string \<Rightarrow> bool" where
  "exported name =
     (case name of [] \<Rightarrow> False | c # cs \<Rightarrow> 65 \<le> (of_char c :: nat) \<and> (of_char c :: nat) \<le> 90)"

text \<open>
  \<open>v.Field(j).Interface()\<close>: the field of a struct value as an \<open>interface{}\<close>;
  \<open>Field\<close> panics on another kind and out of range, \<open>Interface\<close> on a field that is
  not exported.
\<close>

fun Field_Interface :: "rvalue \<Rightarrow> int \<Rightarrow> panic + val" where
  "Field_Interface (RV t (StructV n fs vs)) j =
     (if kind_of_type t \<noteq> KStruct then Inl (ReflectKind ''Field'' (kind_of_type t))
      else if \<not> (0 \<le> j \<and> j < int (length fs) \<and> j < int (length vs))
        then Inl (IndexOutOfRange j (length fs))
      else if \<not> exported (fst (fs ! nat j)) then Inl UnexportedField
      else Inr (vs ! nat j))"
| "Field_Interface r j = Inl (ReflectKind ''Field'' (Kind r))"

text \<open>The type assertion \<open>x.(string)\<close>.\<close>

fun assert_string :: "val \<Rightarrow> panic + string" where
  "assert_string (StringV s) = Inr s"
| "assert_string v = Inl TypeAssertion"

function SaveAsCSV_header :: "gtype \<Rightarrow> int \<Rightarrow> string list \<Rightarrow> panic + string list" where
  "SaveAsCSV_header dataType i headerRow =
     (case NumField dataType of
        Inl e \<Rightarrow> Inl e
      | Inr n \<Rightarrow>
          if i < int n then
            (case Field_Name dataType i of
               Inl e \<Rightarrow> Inl e
             | Inr name \<Rightarrow>
                 if 0 \<le> i \<and> i < int (length headerRow)
                 then SaveAsCSV_header dataType (i + 1) (headerRow[nat i := name])
                 else Inl (IndexOutOfRange i (length headerRow)))
          else Inr headerRow)"
  by pat_completeness auto
termination
  by (relation "measure (\<lambda>(t, i, h). case NumField t of Inl e \<Rightarrow> 0 | Inr n \<Rightarrow> nat (int n - i))")
    auto

text \<open>The inner loop over the fields \<open>j\<close> of the record at index \<open>i\<close>.\<close>

function SaveAsCSV_row :: "gtype \<Rightarrow> rvalue \<Rightarrow> int \<Rightarrow> int \<Rightarrow> string list \<Rightarrow> panic + string list" where
  "SaveAsCSV_row dataType dataValue i j row =
     (case NumField dataType of
        Inl e \<Rightarrow> Inl e
      | Inr n \<Rightarrow>
          if j < int n then
            (case pbind (Index dataValue i) (\<lambda>r. pbind (Field_Interface r j) assert_string) of
               Inl e \<Rightarrow> Inl e
             | Inr s \<Rightarrow>
                 if 0 \<le> j \<and> j < int (length row)
                 then SaveAsCSV_row dataType dataValue i (j + 1) (row[nat j := s])
                 else Inl (IndexOutOfRange j (length row)))
          else Inr row)"
  by pat_completeness auto
termination
  by (relation "measure (\<lambda>(t, v, i, j, r). case NumField t of Inl e \<Rightarrow> 0 | Inr n \<Rightarrow> nat (int n - j))")
    auto

text \<open>
  The outer loop over the records, with the rows written so far: a panic, if any, and
  the rows the writer has received.
\<close>

function SaveAsCSV_rows ::
  "gtype \<Rightarrow> rvalue \<Rightarrow> int \<Rightarrow> string list list \<Rightarrow> panic option \<times> string list list" where
  "SaveAsCSV_rows dataType dataValue i written =
     (case Len dataValue of
        Inl e \<Rightarrow> (Some e, written)
      | Inr n \<Rightarrow>
          if i < int n then
            (case NumField dataType of
               Inl e \<Rightarrow> (Some e, written)
             | Inr k \<Rightarrow>
                 (case SaveAsCSV_row dataType dataValue i 0 (replicate k []) of
                    Inl e \<Rightarrow> (Some e, written)
                  | Inr row \<Rightarrow> SaveAsCSV_rows dataType dataValue (i + 1) (written @ [row])))
          else (None, written))"
  by pat_completeness auto
termination
  by (relation "measure (\<lambda>(t, v, i, w). case Len v of Inl e \<Rightarrow> 0 | Inr n \<Rightarrow> nat (int n - i))")
    auto

declare SaveAsCSV_header.simps [simp del] SaveAsCSV_row.simps [simp del]
  SaveAsCSV_rows.simps [simp del]

text \<open>From \<open>csv.NewWriter\<close> up to, not including, \<open>writer.Flush()\<close>.\<close>

definition SaveAsCSV_write :: "val \<Rightarrow> panic option \<times> string list list" where
  "SaveAsCSV_write data =
     (case Elem (TypeOf data) of
        Inl e \<Rightarrow> (Some e, [])
      | Inr dataType \<Rightarrow>
          (case NumField dataType of
             Inl e \<Rightarrow> (Some e, [])
           | Inr k \<Rightarrow>
               (case SaveAsCSV_header dataType 0 (replicate k []) of
                  Inl e \<Rightarrow> (Some e, [])
                | Inr headerRow \<Rightarrow> SaveAsCSV_rows dataType (ValueOf data) 0 [headerRow])))"

text \<open>
  The call: the error of \<open>os.Create\<close> is returned at once; otherwise the rows are
  written, the writer is flushed unless a panic came first, and the deferred
  \<open>file.Close()\<close> runs in both cases. The result is the panic or the returned error
  (\<open>None\<close> for \<open>nil\<close>), with the file system after the call.
\<close>

definition SaveAsCSV :: "fsys \<Rightarrow> val \<Rightarrow> string \<Rightarrow> (panic + os_error option) \<times> fsys" where
  "SaveAsCSV fs data filename =
     (case os_Create fs filename of
        Inl err \<Rightarrow> (Inr (Some err), fs)
      | Inr fs1 \<Rightarrow>
          (case SaveAsCSV_write data of
             (Some p, written) \<Rightarrow>
               (Inl p, fs1\<lparr>files := (files fs1)(filename \<mapsto>
                   \<lparr>records = written, is_flushed = False, is_closed = True\<rparr>)\<rparr>)
           | (None, written) \<Rightarrow>
               (Inr None, fs1\<lparr>files := (files fs1)(filename \<mapsto>
                   \<lparr>records = written, is_flushed = True, is_closed = True\<rparr>)\<rparr>)))"

fun is_string :: "val \<Rightarrow> bool" where
  "is_string (StringV s) = True"
| "is_string v = False"

fun field_values :: "val \<Rightarrow> val list" where
  "field_values (StructV n fs vs) = vs"
| "field_values v = []"

text \<open>A file system that refuses one path, and a record type with a field of interface type.\<close>

definition example_fs :: fsys where
  "example_fs = \<lparr>create_error = (\<lambda>name. if name = ''/nowhere/out.csv''
                                        then Some (PathError ''open'' name) else None),
                 files = (\<lambda>name. None)\<rparr>"

definition person :: "(string \<times> gtype) list" where
  "person = [(''Name'', StringT), (''Age'', InterfaceT)]"

section \<open>Properties of IsExist\<close>

lemma kind_of_ikind_inj: "kind_of_ikind k = kind_of_ikind l \<longleftrightarrow> k = l"
  by (cases k; cases l) simp_all

lemma kind_of_ukind_inj: "kind_of_ukind k = kind_of_ukind l \<longleftrightarrow> k = l"
  by (cases k; cases l) simp_all

lemma kind_of_fkind_inj: "kind_of_fkind k = kind_of_fkind l \<longleftrightarrow> k = l"
  by (cases k; cases l) simp_all

lemma kind_of_ikind_cases:
  "kind_of_ikind k \<in> int_kinds" "kind_of_ikind k \<notin> uint_kinds" "kind_of_ikind k \<notin> float_kinds"
  "kind_of_ikind k \<noteq> KString" "kind_of_ikind k \<noteq> KBool" "kind_of_ikind k \<noteq> KInterface"
  "kind_of_ikind k \<noteq> KSlice" "kind_of_ikind k \<noteq> KStruct" "kind_of_ikind k \<noteq> KUintptr"
  by (cases k; simp add: int_kinds_def uint_kinds_def float_kinds_def)+

lemma kind_of_ukind_cases:
  "kind_of_ukind k \<notin> int_kinds" "kind_of_ukind k \<notin> float_kinds"
  "kind_of_ukind k \<noteq> KString" "kind_of_ukind k \<noteq> KBool" "kind_of_ukind k \<noteq> KInterface"
  "kind_of_ukind k \<noteq> KSlice" "kind_of_ukind k \<noteq> KStruct"
  "kind_of_ukind k \<in> insert KUintptr uint_kinds"
  by (cases k; simp add: int_kinds_def uint_kinds_def float_kinds_def)+

lemma kind_of_fkind_cases:
  "kind_of_fkind k \<notin> int_kinds" "kind_of_fkind k \<notin> uint_kinds" "kind_of_fkind k \<in> float_kinds"
  "kind_of_fkind k \<noteq> KString" "kind_of_fkind k \<noteq> KBool" "kind_of_fkind k \<noteq> KInterface"
  "kind_of_fkind k \<noteq> KSlice" "kind_of_fkind k \<noteq> KStruct"
  by (cases k; simp add: int_kinds_def uint_kinds_def float_kinds_def)+

lemma kind_of_i_u: "kind_of_ikind k \<noteq> kind_of_ukind l" "kind_of_ukind l \<noteq> kind_of_ikind k"
  by (cases k; cases l; simp)+

lemma kind_of_i_f: "kind_of_ikind k \<noteq> kind_of_fkind l" "kind_of_fkind l \<noteq> kind_of_ikind k"
  by (cases k; cases l; simp)+

lemma kind_of_u_f: "kind_of_ukind k \<noteq> kind_of_fkind l" "kind_of_fkind l \<noteq> kind_of_ukind k"
  by (cases k; cases l; simp)+


lemma kind_of_sym:
  "KString \<noteq> kind_of_ikind i" "KBool \<noteq> kind_of_ikind i" "KInterface \<noteq> kind_of_ikind i"
  "KSlice \<noteq> kind_of_ikind i" "KStruct \<noteq> kind_of_ikind i"
  "KString \<noteq> kind_of_ukind u" "KBool \<noteq> kind_of_ukind u" "KInterface \<noteq> kind_of_ukind u"
  "KSlice \<noteq> kind_of_ukind u" "KStruct \<noteq> kind_of_ukind u"
  "KString \<noteq> kind_of_fkind f" "KBool \<noteq> kind_of_fkind f" "KInterface \<noteq> kind_of_fkind f"
  "KSlice \<noteq> kind_of_fkind f" "KStruct \<noteq> kind_of_fkind f"
  by (cases i; cases u; cases f; simp)+

lemma TypeOf_not_interface: "TypeOf p = Some pt \<Longrightarrow> kind_of_type pt \<noteq> KInterface"
  by (cases p) (auto simp: kind_of_ikind_cases kind_of_ukind_cases kind_of_fkind_cases)

lemmas kind_facts =
  kind_of_ikind_inj kind_of_ukind_inj kind_of_fkind_inj
  kind_of_ikind_cases kind_of_ukind_cases kind_of_fkind_cases
  kind_of_i_u kind_of_i_f kind_of_u_f kind_of_sym



lemma pbind_Inr: "pbind (Inr x) f = f x"
  by (simp add: pbind_def)

lemma wf_elems_nth: "wf_elems t xs \<Longrightarrow> k < length xs \<Longrightarrow> wf_at t (xs ! k)"
proof (induction xs arbitrary: k)
  case Nil
  then show ?case by simp
next
  case (Cons x xs)
  then show ?case by (cases k) simp_all
qed



lemma IsExist_loop_scan:
  assumes "Len s = Inr n" "0 \<le> i"
    and "\<And>j. i \<le> j \<Longrightarrow> j < int n \<Longrightarrow> IsExist_body what s j = Inr (Q (nat j))"
  shows "IsExist_loop what s i = Inr (\<exists>k. nat i \<le> k \<and> k < n \<and> Q k)"
  using assms
proof (induction "nat (int n - i)" arbitrary: i)
  case 0
  then have "\<not> i < int n" by simp
  then have "\<not> (\<exists>k. nat i \<le> k \<and> k < n \<and> Q k)" by auto
  with 0 show ?case by (simp add: IsExist_loop.simps[of what s i])
next
  case (Suc m)
  then have lt: "i < int n" by simp
  have body: "IsExist_body what s i = Inr (Q (nat i))"
    using Suc.prems lt by simp
  show ?case
  proof (cases "Q (nat i)")
    case True
    then have "\<exists>k. nat i \<le> k \<and> k < n \<and> Q k" using lt Suc.prems by (intro exI[of _ "nat i"]) auto
    then show ?thesis using True body lt Suc.prems(1)
      by (simp add: IsExist_loop.simps[of what s i])
  next
    case False
    have IH: "IsExist_loop what s (i + 1) = Inr (\<exists>k. nat (i + 1) \<le> k \<and> k < n \<and> Q k)"
      using Suc.hyps(2) Suc.prems by (intro Suc.hyps(1)) auto
    have "(\<exists>k. nat (i + 1) \<le> k \<and> k < n \<and> Q k) = (\<exists>k. nat i \<le> k \<and> k < n \<and> Q k)"
    proof -
      have "nat i \<le> k \<and> Q k \<longleftrightarrow> nat (i + 1) \<le> k \<and> Q k" for k
        using False Suc.prems(2) by (cases "k = nat i") auto
      then show ?thesis by blast
    qed
    then show ?thesis using False body lt Suc.prems(1) IH
      by (simp add: IsExist_loop.simps[of what s i])
  qed
qed




lemma is_slice_cases: "is_slice S \<longleftrightarrow> (\<exists>t. S = NilSliceV t) \<or> (\<exists>t xs. S = SliceV t xs)"
  by (cases S) (auto simp: is_slice_def ValueOf_def kind_facts)







lemma f64_round_finite:
  assumes "r \<noteq> 0" "flog2 \<bar>r\<bar> = k" "max (k - 52) (- 1074) = e"
    and "round_half_even (\<bar>r\<bar> / pow2 e) = m"
    and "\<not> (971 < e \<or> (e = 971 \<and> m = 2 ^ 53))" "m \<noteq> 0"
  shows "f64_round r = Fin ((if r < 0 then - 1 else 1) * of_int m * pow2 e)"
  using assms by (simp add: f64_round_def Let_def)









text \<open>
  Claim C3. For a probe other than the nil interface, \<open>IsExist\<close> returns false on
  every \<open>[]interface{}\<close>, whatever it holds (non-empty or not): each element is
  reflected with the kind \<open>Interface\<close>, which is never the kind of the probe's type.
\<close>

theorem IsExist_interface_slice:
  assumes "p \<noteq> NilV"
  shows "IsExist p (SliceV InterfaceT xs) = Inr False
       \<and> (\<forall>x. Kind (RV InterfaceT x) = KInterface) \<and> TypeOf_Kind p \<noteq> Inr KInterface"
proof -
  from assms obtain pt where pt: "TypeOf p = Some pt" by (cases p) simp_all
  then have k: "TypeOf_Kind p = Inr (kind_of_type pt)" "kind_of_type pt \<noteq> KInterface"
    using TypeOf_not_interface by (simp_all add: TypeOf_Kind_def)
  let ?s = "RV (SliceT InterfaceT) (SliceV InterfaceT xs)"
  have body: "IsExist_body p ?s j = Inr False" if "0 \<le> j" "j < int (length xs)" for j
    using that k by (auto simp: IsExist_body_def pbind_def)
  have "IsExist_loop p ?s 0 = Inr (\<exists>k. nat 0 \<le> k \<and> k < length xs \<and> False)"
    by (rule IsExist_loop_scan) (simp_all add: body)
  then show ?thesis using k by (simp add: IsExist_def ValueOf_def)
qed

theorem IsExist_interface_slice_witness:
  "IntV I 3 \<noteq> NilV \<and> IsExist (IntV I 3) (SliceV InterfaceT [IntV I 1, IntV I 3]) = Inr False"
  using IsExist_interface_slice[of "IntV I 3" "[IntV I 1, IntV I 3]"] by simp

text \<open>
  Claim C8. When the second argument is not a slice, \<open>IsExist\<close> panics with its own
  message, for every probe; it does not return false.
\<close>

theorem IsExist_not_slice_panics:
  assumes "\<not> is_slice inp"
  shows "IsExist p inp = Inl (PanicMsg ''IsExist: Second argument must be a slice'')
       \<and> IsExist p inp \<noteq> Inr False"
  using assms by (simp add: IsExist_def is_slice_def)

theorem IsExist_not_slice_panics_witness:
  "\<not> is_slice (StringV ''abc'') \<and> \<not> is_slice NilV
   \<and> IsExist (IntV I 3) (StringV ''abc'') = Inl (PanicMsg ''IsExist: Second argument must be a slice'')
   \<and> IsExist (IntV I 3) NilV = Inl (PanicMsg ''IsExist: Second argument must be a slice'')"
proof -
  have a: "\<not> is_slice (StringV ''abc'')" and b: "\<not> is_slice NilV"
    by (simp_all add: is_slice_def ValueOf_def)
  show ?thesis
    using IsExist_not_slice_panics[OF a, of "IntV I 3"] IsExist_not_slice_panics[OF b, of "IntV I 3"] a b
    by simp
qed

section \<open>Properties of the conversions between int and float64\<close>

lemma pow2_powi: "pow2 e = 2 powi e"
  by (simp add: pow2_def power_int_def inverse_eq_divide power_one_over)

lemma pow2_pos: "0 < pow2 e"
  by (simp add: pow2_powi)

lemma pow2_add: "pow2 (a + b) = pow2 a * pow2 b"
  by (simp add: pow2_powi power_int_add)

lemma pow2_nat: "pow2 (int n) = 2 ^ n"
  by (simp add: pow2_def)

lemma round_half_even_int: "round_half_even (of_int z) = z"
  by (simp add: round_half_even_def)

lemma round_half_even_ge: "of_int z \<le> x \<Longrightarrow> z \<le> round_half_even x"
proof -
  assume "of_int z \<le> x"
  then have "z \<le> \<lfloor>x\<rfloor>" by (simp add: le_floor_iff)
  moreover have "\<lfloor>x\<rfloor> \<le> round_half_even x"
    by (simp add: round_half_even_def Let_def)
  ultimately show ?thesis by linarith
qed

lemma flog2_of_int:
  assumes "0 < a"
  shows "flog2 (of_int a) = int (floorlog 2 (nat a)) - 1"
  using assms by (simp add: flog2_def)

lemma floorlog_int_bounds:
  assumes "0 < a"
  shows "2 ^ (floorlog 2 (nat a) - 1) \<le> a" "a < 2 ^ floorlog 2 (nat a)" "0 < floorlog 2 (nat a)"
proof -
  have b: "2 ^ (floorlog 2 (nat a) - 1) \<le> nat a \<and> nat a < 2 ^ floorlog 2 (nat a)"
    using assms by (intro floorlog_bounds) auto
  from b have "int (2 ^ (floorlog 2 (nat a) - 1)) \<le> int (nat a)" by (simp only: of_nat_le_iff)
  then show "2 ^ (floorlog 2 (nat a) - 1) \<le> a" using assms by simp
  from b have "int (nat a) < int (2 ^ floorlog 2 (nat a))" by (simp only: of_nat_less_iff)
  then show "a < 2 ^ floorlog 2 (nat a)" using assms by simp
  show "0 < floorlog 2 (nat a)" using assms by (simp add: floorlog_def)
qed



text \<open>Rounding a non-zero integer of at most 64 bits: the shape of the result.\<close>

lemma f64_round_of_int:
  fixes a :: int
  assumes "a \<noteq> 0" "\<bar>a\<bar> \<le> 2 ^ 63"
  defines "L \<equiv> floorlog 2 (nat \<bar>a\<bar>)"
  defines "m \<equiv> round_half_even (of_int \<bar>a\<bar> / pow2 (int L - 53))"
  shows "f64_round (of_int a) = Fin ((if a < 0 then - 1 else 1) * of_int m * pow2 (int L - 53))"
    and "pow2 (int L - 1) \<le> of_int m * pow2 (int L - 53)"
    and "L \<le> 64"
proof -
  have pos: "0 < \<bar>a\<bar>" using assms(1) by simp
  note bnd = floorlog_int_bounds[OF pos, folded L_def]
  have "(2::int) ^ (L - 1) \<le> 2 ^ 63" using bnd(1) assms(2) by linarith
  then have "L - 1 \<le> 63" by (simp only: power_increasing_iff[of 2] one_less_numeral_iff semiring_norm)
  then show L64: "L \<le> 64" by simp
  have k: "flog2 \<bar>of_int a\<bar> = int L - 1"
    using flog2_of_int[OF pos] by (simp add: L_def)
  have e: "max (int L - 1 - 52) (- 1074) = int L - 53" by simp
  have "pow2 (int L - 1) \<le> of_int \<bar>a\<bar>"
  proof -
    have "pow2 (int L - 1) = 2 ^ (L - 1)" using bnd(3) pow2_nat[of "L - 1"] by (simp add: of_nat_diff)
    also have "\<dots> = of_int (2 ^ (L - 1))" by simp
    also have "\<dots> \<le> of_int \<bar>a\<bar>" using bnd(1) by (simp only: of_int_le_iff)
    finally show ?thesis .
  qed
  moreover have "pow2 (int L - 1) = pow2 52 * pow2 (int L - 53)"
    using pow2_add[of 52 "int L - 53"] by simp
  ultimately have "pow2 52 * pow2 (int L - 53) \<le> of_int \<bar>a\<bar>" by simp
  then have "pow2 52 \<le> of_int \<bar>a\<bar> / pow2 (int L - 53)"
    using pow2_pos[of "int L - 53"] by (simp add: pos_le_divide_eq)
  moreover have "pow2 52 = of_int (2 ^ 52)" by (simp add: pow2_def)
  ultimately have m52: "2 ^ 52 \<le> m" unfolding m_def by (intro round_half_even_ge) simp
  then have m0: "m \<noteq> 0" by auto
  have r: "round_half_even (\<bar>of_int a\<bar> / pow2 (int L - 53)) = m"
    by (simp add: m_def)
  have no: "\<not> (971 < int L - 53 \<or> (int L - 53 = 971 \<and> m = 2 ^ 53))"
    using L64 by simp
  have ne: "(of_int a :: rat) \<noteq> 0" using assms(1) by simp
  show "f64_round (of_int a) = Fin ((if a < 0 then - 1 else 1) * of_int m * pow2 (int L - 53))"
    using f64_round_finite[OF ne k e r no m0] by simp
  have "pow2 52 * pow2 (int L - 53) \<le> of_int m * pow2 (int L - 53)"
  proof -
    have "(of_int (2 ^ 52) :: rat) \<le> of_int m" using m52 by (simp only: of_int_le_iff)
    then have "pow2 52 \<le> of_int m" by (simp add: pow2_def)
    then show ?thesis using pow2_pos[of "int L - 53"] by simp
  qed
  then show "pow2 (int L - 1) \<le> of_int m * pow2 (int L - 53)"
    using pow2_add[of 52 "int L - 53"] by simp
qed


lemma float64_of_int_small:
  assumes "0 \<le> a" "a < 2 ^ 53"
  shows "float64_of_int a = Fin (of_int a)"
proof (cases "a = 0")
  case True
  then show ?thesis by (simp add: float64_of_int_def f64_round_def)
next
  case False
  define L where "L = floorlog 2 (nat \<bar>a\<bar>)"
  have pos: "0 < \<bar>a\<bar>" using False by simp
  note bnd = floorlog_int_bounds[OF pos, folded L_def]
  have "(2::int) ^ (L - 1) < 2 ^ 53" using bnd(1) assms by linarith
  then have "L - 1 < 53" by (simp only: power_strict_increasing_iff[of 2] one_less_numeral_iff semiring_norm)
  then have L: "L \<le> 53" by simp
  have p: "pow2 (int L - 53) * pow2 (int (53 - L)) = 1"
    using pow2_add[of "int L - 53" "int (53 - L)"] L by (simp add: of_nat_diff pow2_def)
  have q: "pow2 (int (53 - L)) = of_int (2 ^ (53 - L))" by (simp add: pow2_nat)
  have "of_int \<bar>a\<bar> / pow2 (int L - 53) = of_int \<bar>a\<bar> * pow2 (int (53 - L))"
    using p pow2_pos[of "int L - 53"] by (simp add: field_simps)
  also have "\<dots> = of_int (\<bar>a\<bar> * 2 ^ (53 - L))" using q by simp
  finally have m: "round_half_even (of_int \<bar>a\<bar> / pow2 (int L - 53)) = \<bar>a\<bar> * 2 ^ (53 - L)"
    by (simp only: round_half_even_int)
  have "f64_round (of_int a) = Fin (of_int (\<bar>a\<bar> * 2 ^ (53 - L)) * pow2 (int L - 53))"
    using f64_round_of_int(1)[of a] assms False unfolding L_def[symmetric] m by simp
  also have "of_int (\<bar>a\<bar> * 2 ^ (53 - L)) * pow2 (int L - 53) = (of_int a :: rat)"
    using p q assms by (simp add: mult.assoc mult.commute)
  finally show ?thesis by (simp add: float64_of_int_def)
qed

lemma float64_of_int_2_53: "float64_of_int (2 ^ 53) = Fin (2 ^ 53)"
proof -
  have L: "floorlog 2 (nat \<bar>2 ^ 53\<bar>) = 54"
    using floorlog_power[of 1 2 53] by (simp add: nat_power_eq compute_floorlog)
  have "f64_round (of_int (2 ^ 53)) = Fin (of_int (round_half_even (of_int \<bar>2 ^ 53\<bar> / pow2 1)) * pow2 1)"
    using f64_round_of_int(1)[of "2 ^ 53"] unfolding L by simp
  moreover have "of_int \<bar>2 ^ 53\<bar> / pow2 1 = (of_int (2 ^ 52) :: rat)" by (simp add: pow2_def)
  ultimately show ?thesis
    by (simp only: round_half_even_int float64_of_int_def) (simp add: pow2_def)
qed

lemma float64_of_int_exact:
  assumes "0 \<le> a" "a \<le> 2 ^ 53"
  shows "float64_of_int a = Fin (of_int a)"
proof (cases "a = 2 ^ 53")
  case True
  then show ?thesis using float64_of_int_2_53 by simp
next
  case False
  then show ?thesis using assms by (intro float64_of_int_small) auto
qed

lemma float64_of_int_large:
  assumes "2 ^ 53 \<le> a" "a < 2 ^ 63"
  shows "\<exists>r. float64_of_int a = Fin r \<and> 2 ^ 53 \<le> r"
proof -
  define L where "L = floorlog 2 (nat \<bar>a\<bar>)"
  define m where "m = round_half_even (of_int \<bar>a\<bar> / pow2 (int L - 53))"
  have pos: "0 < \<bar>a\<bar>" and ne: "a \<noteq> 0" and le: "\<bar>a\<bar> \<le> 2 ^ 63" using assms by auto
  note bnd = floorlog_int_bounds[OF pos, folded L_def]
  have "(2::int) ^ 53 < 2 ^ L" using bnd(2) assms by linarith
  then have L: "53 < L" by (simp only: power_strict_increasing_iff[of 2] one_less_numeral_iff semiring_norm)
  have 1: "f64_round (of_int a) = Fin (of_int m * pow2 (int L - 53))"
    using f64_round_of_int(1)[OF ne le] assms unfolding L_def[symmetric] m_def[symmetric] by simp
  have 2: "pow2 (int L - 1) \<le> of_int m * pow2 (int L - 53)"
    using f64_round_of_int(2)[OF ne le] unfolding L_def[symmetric] m_def[symmetric] .
  have "pow2 (int L - 1) = 2 ^ (L - 1)" using L pow2_nat[of "L - 1"] by (simp add: of_nat_diff)
  moreover have "(2::rat) ^ 53 \<le> 2 ^ (L - 1)" using L by (intro power_increasing) auto
  ultimately have "2 ^ 53 \<le> of_int m * pow2 (int L - 53)" using 2 by simp
  then show ?thesis using 1 by (simp add: float64_of_int_def)
qed

lemma float64_of_int_negative:
  assumes "a < 0" "- (2 ^ 63) \<le> a"
  shows "\<exists>r. float64_of_int a = Fin r \<and> r \<le> - 1"
proof -
  define L where "L = floorlog 2 (nat \<bar>a\<bar>)"
  define m where "m = round_half_even (of_int \<bar>a\<bar> / pow2 (int L - 53))"
  have pos: "0 < \<bar>a\<bar>" and ne: "a \<noteq> 0" and le: "\<bar>a\<bar> \<le> 2 ^ 63" using assms by auto
  note bnd = floorlog_int_bounds[OF pos, folded L_def]
  have 1: "f64_round (of_int a) = Fin (- (of_int m * pow2 (int L - 53)))"
    using f64_round_of_int(1)[OF ne le] assms unfolding L_def[symmetric] m_def[symmetric] by simp
  have 2: "pow2 (int L - 1) \<le> of_int m * pow2 (int L - 53)"
    using f64_round_of_int(2)[OF ne le] unfolding L_def[symmetric] m_def[symmetric] .
  have "pow2 (int L - 1) = 2 ^ (L - 1)" using bnd(3) pow2_nat[of "L - 1"] by (simp add: of_nat_diff)
  moreover have "(1::rat) \<le> 2 ^ (L - 1)" by (rule one_le_power) simp
  ultimately have "1 \<le> of_int m * pow2 (int L - 53)" using 2 by linarith
  then show ?thesis using 1 by (simp add: float64_of_int_def)
qed

lemma min_via_float64_exact:
  assumes "0 \<le> a" "a < 2 ^ 63" "0 \<le> b" "b \<le> 2 ^ 53"
  shows "min_via_float64 a b = min a b"
proof -
  have fb: "float64_of_int b = Fin (of_int b)" using assms by (intro float64_of_int_exact)
  have rb: "int_of_float64 (Fin (of_int b)) = b" using assms by (simp add: int_of_float64_def)
  show ?thesis
  proof (cases "a \<le> 2 ^ 53")
    case True
    have fa: "float64_of_int a = Fin (of_int a)" using assms True by (intro float64_of_int_exact)
    have ra: "int_of_float64 (Fin (of_int a)) = a" using assms by (simp add: int_of_float64_def)
    show ?thesis
      using ra rb by (auto simp: min_via_float64_def fa fb math_Min_def min_def)
  next
    case False
    then obtain r where r: "float64_of_int a = Fin r" "2 ^ 53 \<le> r"
      using float64_of_int_large[of a] assms by auto
    have "(of_int b :: rat) \<le> of_int (2 ^ 53)" using assms by (simp only: of_int_le_iff)
    then have br: "of_int b \<le> r" using r(2) by simp
    have "r \<noteq> 0" using r(2) by auto
    then have "math_Min (Fin r) (Fin (of_int b)) = Fin (of_int b)"
      using br by (auto simp: math_Min_def)
    then show ?thesis using rb False assms by (simp add: min_via_float64_def r fb)
  qed
qed

lemma min_via_float64_negative:
  assumes "a < 0" "- (2 ^ 63) \<le> a" "0 \<le> b" "b \<le> 2 ^ 53"
  shows "min_via_float64 a b < 0"
proof -
  have fb: "float64_of_int b = Fin (of_int b)" using assms by (intro float64_of_int_exact)
  obtain r where r: "float64_of_int a = Fin r" "r \<le> - 1"
    using float64_of_int_negative[OF assms(1,2)] by auto
  have "(0::rat) \<le> of_int b" using assms by simp
  then have "math_Min (Fin r) (Fin (of_int b)) = Fin r"
    using r(2) by (auto simp: math_Min_def)
  moreover have "int_of_float64 (Fin r) < 0"
  proof -
    have "\<lceil>r\<rceil> \<le> - 1" using r(2) by (simp add: ceiling_le_iff)
    then show ?thesis using r(2) by (simp add: int_of_float64_def Let_def)
  qed
  ultimately show ?thesis by (simp add: min_via_float64_def r fb)
qed

section \<open>Properties of the equality policy of IsExist\<close>





















section \<open>Properties of MapReduce\<close>

lemma MapReduce_map_loop_eq:
  assumes "0 \<le> i" "i \<le> int (length xs)"
  shows "MapReduce_map_loop (RV (SliceT t) (SliceV t xs)) f i acc
       = (case map_in_order f (drop (nat i) xs) of Inl e \<Rightarrow> Inl e | Inr ys \<Rightarrow> Inr (acc @ ys))"
  using assms
proof (induction "nat (int (length xs) - i)" arbitrary: i acc)
  case 0
  then have "i = int (length xs)" by simp
  then show ?case
    by (subst MapReduce_map_loop.simps) (simp)
next
  case (Suc k)
  then have lt: "i < int (length xs)" by simp
  then have d: "drop (nat i) xs = xs ! nat i # drop (nat (i + 1)) xs"
    using Suc.prems by (simp add: Cons_nth_drop_Suc nat_add_distrib)
  have item: "MapReduce_item (RV (SliceT t) (SliceV t xs)) f i = f (xs ! nat i)"
    using lt Suc.prems by (simp add: MapReduce_item_def pbind_def)
  show ?case
  proof (cases "f (xs ! nat i)")
    case (Inl e)
    then show ?thesis using lt item d
      by (subst MapReduce_map_loop.simps) (simp)
  next
    case (Inr y)
    have "MapReduce_map_loop (RV (SliceT t) (SliceV t xs)) f (i + 1) (acc @ [y])
        = (case map_in_order f (drop (nat (i + 1)) xs) of Inl e \<Rightarrow> Inl e
           | Inr ys \<Rightarrow> Inr ((acc @ [y]) @ ys))"
      using Suc.hyps(2) Suc.prems lt by (intro Suc.hyps(1)) auto
    then show ?thesis using lt item d Inr
      by (subst MapReduce_map_loop.simps) (simp split: sum.splits)
  qed
qed

lemma MapReduce_reduce_loop_eq:
  assumes "0 \<le> i" "i \<le> int (length ys)"
  shows "MapReduce_reduce_loop g ys i r = fold_left g r (drop (nat i) ys)"
  using assms
proof (induction "nat (int (length ys) - i)" arbitrary: i r)
  case 0
  then have "i = int (length ys)" by simp
  then show ?case by (subst MapReduce_reduce_loop.simps) (simp)
next
  case (Suc k)
  then have lt: "i < int (length ys)" by simp
  then have d: "drop (nat i) ys = ys ! nat i # drop (nat (i + 1)) ys"
    using Suc.prems by (simp add: Cons_nth_drop_Suc nat_add_distrib)
  show ?case
  proof (cases "g r (ys ! nat i)")
    case (Inl e)
    then show ?thesis using lt d by (subst MapReduce_reduce_loop.simps) (simp)
  next
    case (Inr r')
    have "MapReduce_reduce_loop g ys (i + 1) r' = fold_left g r' (drop (nat (i + 1)) ys)"
      using Suc.hyps(2) Suc.prems lt by (intro Suc.hyps(1)) auto
    then show ?thesis using lt d Inr by (subst MapReduce_reduce_loop.simps) (simp)
  qed
qed

lemma map_in_order_length: "map_in_order f xs = Inr ys \<Longrightarrow> length ys = length xs"
  by (induction xs arbitrary: ys) (auto split: sum.splits)

lemma MapReduce_map_loop_nil_slice:
  "MapReduce_map_loop (RV (SliceT t) (NilSliceV t)) f 0 [] = Inr []"
  by (simp add: MapReduce_map_loop.simps)


lemma MapReduce_map_loop_slice:
  assumes "is_slice S"
  shows "MapReduce_map_loop (ValueOf S) f 0 [] = map_in_order f (elems S)"
proof -
  consider t where "S = NilSliceV t" | t xs where "S = SliceV t xs"
    using assms unfolding is_slice_cases by blast
  then show ?thesis
  proof cases
    case 1
    then show ?thesis by (simp add: ValueOf_def MapReduce_map_loop_nil_slice)
  next
    case 2
    have "MapReduce_map_loop (RV (SliceT t) (SliceV t xs)) f 0 []
        = (case map_in_order f (drop (nat 0) xs) of Inl e \<Rightarrow> Inl e | Inr ys \<Rightarrow> Inr ([] @ ys))"
      by (rule MapReduce_map_loop_eq) simp_all
    then show ?thesis using 2 by (simp add: ValueOf_def split: sum.splits)
  qed
qed

lemma MapReduce_slice:
  assumes "is_slice S"
  shows "MapReduce S f g =
         (case map_in_order f (elems S) of
            Inl e \<Rightarrow> Inl e
          | Inr ys \<Rightarrow> if ys = [] then Inl (IndexOutOfRange 0 0) else fold_left g (hd ys) (tl ys))"
proof (cases "map_in_order f (elems S)")
  case (Inl e)
  then show ?thesis by (simp add: MapReduce_def MapReduce_map_loop_slice[OF assms])
next
  case (Inr ys)
  show ?thesis
  proof (cases ys)
    case Nil
    then show ?thesis using Inr by (simp add: MapReduce_def MapReduce_map_loop_slice[OF assms])
  next
    case (Cons y ys')
    have "MapReduce_reduce_loop g ys 1 (ys ! 0) = fold_left g (ys ! 0) (drop (nat 1) ys)"
      using Cons by (intro MapReduce_reduce_loop_eq) simp_all
    then show ?thesis using Inr Cons
      by (simp add: MapReduce_def MapReduce_map_loop_slice[OF assms])
  qed
qed

lemma MapReduce_example:
  "map_in_order double_int [IntV I 1, IntV I 2, IntV I 3, IntV I 4]
     = Inr [IntV I 2, IntV I 4, IntV I 6, IntV I 8]"
  "fold_left sum_int (IntV I 2) [IntV I 4, IntV I 6, IntV I 8] = Inr (IntV I 20)"
  by (simp_all add: wrap64_def)

text \<open>
  Claim C5. On a non-empty slice, \<open>MapReduce\<close> is the left fold, with the reducer, of
  the mapped sequence, seeded with its first element; the mapped sequence is the mapper
  applied to every element in order, and it is complete before the reducer is called
  for the first time (a panic of the mapper at any element comes before any panic of
  the reducer). With the example's callbacks, \<open>[1, 2, 3, 4]\<close> is mapped to
  \<open>[2, 4, 6, 8]\<close> and reduced to \<open>20\<close>.
\<close>

theorem MapReduce_map_then_fold:
  assumes "is_slice S" "elems S \<noteq> []"
  shows "MapReduce S mapper reducer = map_then_fold mapper reducer (elems S)
       \<and> MapReduce_map_loop (ValueOf S) mapper 0 [] = map_in_order mapper (elems S)
       \<and> MapReduce_map_loop (ValueOf (SliceV (IntT I) [IntV I 1, IntV I 2, IntV I 3, IntV I 4])) double_int 0 []
           = Inr [IntV I 2, IntV I 4, IntV I 6, IntV I 8]
       \<and> MapReduce (SliceV (IntT I) [IntV I 1, IntV I 2, IntV I 3, IntV I 4]) double_int sum_int
           = Inr (IntV I 20)"
proof -
  have 1: "MapReduce S mapper reducer = map_then_fold mapper reducer (elems S)"
  proof (cases "map_in_order mapper (elems S)")
    case (Inl e)
    then show ?thesis by (simp add: MapReduce_slice[OF assms(1)] map_then_fold_def)
  next
    case (Inr ys)
    then have "length ys = length (elems S)" by (rule map_in_order_length)
    then have "ys \<noteq> []" using assms(2) by auto
    then show ?thesis using Inr by (simp add: MapReduce_slice[OF assms(1)] map_then_fold_def)
  qed
  have s: "is_slice (SliceV (IntT I) [IntV I 1, IntV I 2, IntV I 3, IntV I 4])"
    by (simp add: is_slice_def ValueOf_def)
  have 3: "MapReduce_map_loop (ValueOf (SliceV (IntT I) [IntV I 1, IntV I 2, IntV I 3, IntV I 4])) double_int 0 []
           = Inr [IntV I 2, IntV I 4, IntV I 6, IntV I 8]"
    unfolding MapReduce_map_loop_slice[OF s] using MapReduce_example(1) by simp
  have 4: "MapReduce (SliceV (IntT I) [IntV I 1, IntV I 2, IntV I 3, IntV I 4]) double_int sum_int
           = Inr (IntV I 20)"
    unfolding MapReduce_slice[OF s] using MapReduce_example by simp
  show ?thesis using 1 3 4 MapReduce_map_loop_slice[OF assms(1)] by simp
qed

theorem MapReduce_map_then_fold_witness:
  "is_slice (SliceV (IntT I) [IntV I 5, IntV I 7]) \<and> elems (SliceV (IntT I) [IntV I 5, IntV I 7]) \<noteq> []
   \<and> MapReduce (SliceV (IntT I) [IntV I 5, IntV I 7]) double_int sum_int = Inr (IntV I 24)
   \<and> MapReduce (SliceV (IntT I) [IntV I 5, IntV I 7]) double_int (\<lambda>a b. Inl TypeAssertion) = Inl TypeAssertion
   \<and> MapReduce (SliceV InterfaceT [IntV I 5, StringV ''x'']) double_int (\<lambda>a b. Inl NilDereference)
       = Inl TypeAssertion"
proof -
  have s: "is_slice (SliceV (IntT I) [IntV I 5, IntV I 7])"
     "is_slice (SliceV InterfaceT [IntV I 5, StringV ''x''])"
    by (simp_all add: is_slice_def ValueOf_def)
  have e: "elems (SliceV (IntT I) [IntV I 5, IntV I 7]) \<noteq> []"
    "elems (SliceV InterfaceT [IntV I 5, StringV ''x'']) \<noteq> []" by simp_all
  show ?thesis
    using MapReduce_map_then_fold[OF s(1) e(1), of double_int sum_int]
      MapReduce_map_then_fold[OF s(1) e(1), of double_int "\<lambda>a b. Inl TypeAssertion"]
      MapReduce_map_then_fold[OF s(2) e(2), of double_int "\<lambda>a b. Inl NilDereference"] s e
    by (simp add: map_then_fold_def wrap64_def)
qed

text \<open>
  Claim C6. On an empty slice (nil or not), \<open>MapReduce\<close> panics at \<open>mappedItems[0]\<close>
  with the index-out-of-range error of the runtime, for every mapper and reducer; no
  value is returned.
\<close>

theorem MapReduce_empty_panics:
  assumes "is_slice S" "elems S = []"
  shows "MapReduce S mapper reducer = Inl (IndexOutOfRange 0 0)"
  using assms(2) by (simp add: MapReduce_slice[OF assms(1)])

theorem MapReduce_empty_panics_witness:
  "is_slice (SliceV (IntT I) []) \<and> elems (SliceV (IntT I) []) = []
   \<and> is_slice (NilSliceV InterfaceT) \<and> elems (NilSliceV InterfaceT) = []
   \<and> MapReduce (SliceV (IntT I) []) double_int sum_int = Inl (IndexOutOfRange 0 0)
   \<and> MapReduce (NilSliceV InterfaceT) double_int sum_int = Inl (IndexOutOfRange 0 0)"
proof -
  have s: "is_slice (SliceV (IntT I) [])" "is_slice (NilSliceV InterfaceT)"
    by (simp_all add: is_slice_def ValueOf_def)
  have e: "elems (SliceV (IntT I) []) = []" "elems (NilSliceV InterfaceT) = []" by simp_all
  show ?thesis
    using MapReduce_empty_panics[OF s(1) e(1), of double_int sum_int]
      MapReduce_empty_panics[OF s(2) e(2), of double_int sum_int] s e
    by simp
qed

section \<open>Properties of Batch\<close>

lemma ConvertSliceInterfaceToSlice_loop_eq:
  assumes "0 \<le> i" "length s = length xs"
  shows "ConvertSliceInterfaceToSlice_loop (RV (SliceT t) (SliceV t xs)) i s
       = Inr (if i \<le> int (length xs) then take (nat i) s @ drop (nat i) xs else s)"
  using assms
proof (induction "nat (int (length xs) - i)" arbitrary: i s)
  case 0
  then have "int (length xs) \<le> i" by simp
  then show ?case using 0
    by (subst ConvertSliceInterfaceToSlice_loop.simps) auto
next
  case (Suc k)
  then have lt: "i < int (length xs)" by simp
  let ?v = "xs ! nat i"
  have get: "pbind (Index (RV (SliceT t) (SliceV t xs)) i) Interface = Inr ?v"
    using lt Suc.prems by (simp add: pbind_def)
  have "ConvertSliceInterfaceToSlice_loop (RV (SliceT t) (SliceV t xs)) (i + 1) (s[nat i := ?v])
      = Inr (if i + 1 \<le> int (length xs)
             then take (nat (i + 1)) (s[nat i := ?v]) @ drop (nat (i + 1)) xs else s[nat i := ?v])"
    using Suc.hyps(2) Suc.prems lt by (intro Suc.hyps(1)) auto
  moreover have "take (nat (i + 1)) (s[nat i := ?v]) @ drop (nat (i + 1)) xs
      = take (nat i) s @ drop (nat i) xs"
  proof -
    have n: "nat (i + 1) = Suc (nat i)" using Suc.prems by simp
    have l: "nat i < length xs" "nat i < length s" using lt Suc.prems by auto
    have "take (Suc (nat i)) (s[nat i := ?v]) = take (nat i) s @ [?v]"
      using l by (simp add: take_Suc_conv_app_nth)
    moreover have "drop (nat i) xs = ?v # drop (Suc (nat i)) xs"
      using l by (simp add: Cons_nth_drop_Suc)
    ultimately show ?thesis unfolding n by simp
  qed
  ultimately show ?case using lt get Suc.prems
    by (subst ConvertSliceInterfaceToSlice_loop.simps) simp
qed

lemma ConvertSliceInterfaceToSlice_slice:
  "ConvertSliceInterfaceToSlice (RV (SliceT t) (SliceV t xs)) = Inr xs"
  using ConvertSliceInterfaceToSlice_loop_eq[of 0 "replicate (length xs) NilV" xs t]
  by (simp add: ConvertSliceInterfaceToSlice_def)

lemma chunks_Nil: "chunks k [] = []"
  by (simp add: chunks.simps)

lemma chunks_zero: "chunks 0 xs = []"
  by (simp add: chunks.simps)

lemma chunks_step: "0 < k \<Longrightarrow> xs \<noteq> [] \<Longrightarrow> chunks k xs = take k xs # chunks k (drop k xs)"
  by (subst chunks.simps) simp

lemma concat_chunks: "0 < k \<Longrightarrow> concat (chunks k xs) = xs"
proof (induction k xs rule: chunks.induct)
  case (1 k xs)
  show ?case
  proof (cases "xs = []")
    case True
    then show ?thesis by (simp add: chunks_Nil)
  next
    case False
    then show ?thesis using 1 by (simp add: chunks_step)
  qed
qed

lemma chunks_nth:
  "0 < k \<Longrightarrow> j < length (chunks k xs) \<Longrightarrow> chunks k xs ! j = take k (drop (j * k) xs)"
proof (induction k xs arbitrary: j rule: chunks.induct)
  case (1 k xs)
  show ?case
  proof (cases "xs = []")
    case True
    then show ?thesis using "1.prems" by (simp add: chunks_Nil)
  next
    case False
    show ?thesis
    proof (cases j)
      case 0
      then show ?thesis using False "1.prems" by (simp add: chunks_step)
    next
      case (Suc j')
      then have "j' < length (chunks k (drop k xs))"
        using "1.prems" False by (simp add: chunks_step)
      then have "chunks k (drop k xs) ! j' = take k (drop (j' * k) (drop k xs))"
        using "1.IH" "1.prems"(1) False by simp
      then show ?thesis using Suc False "1.prems"(1) by (simp add: chunks_step add.commute)
    qed
  qed
qed

lemma chunks_length_full:
  "0 < k \<Longrightarrow> Suc j < length (chunks k xs) \<Longrightarrow> length (chunks k xs ! j) = k"
proof (induction k xs arbitrary: j rule: chunks.induct)
  case (1 k xs)
  show ?case
  proof (cases "xs = []")
    case True
    then show ?thesis using "1.prems" by (simp add: chunks_Nil)
  next
    case False
    then have st: "chunks k xs = take k xs # chunks k (drop k xs)"
      using "1.prems"(1) by (simp add: chunks_step)
    show ?thesis
    proof (cases j)
      case 0
      then have "chunks k (drop k xs) \<noteq> []" using "1.prems"(2) st by auto
      then have "drop k xs \<noteq> []" using chunks_Nil by metis
      then show ?thesis using 0 st by simp
    next
      case (Suc j')
      then have "Suc j' < length (chunks k (drop k xs))" using "1.prems"(2) st by simp
      then have "length (chunks k (drop k xs) ! j') = k"
        using "1.IH" "1.prems"(1) False by simp
      then show ?thesis using Suc st by simp
    qed
  qed
qed

lemma chunks_length_le: "c \<in> set (chunks k xs) \<Longrightarrow> length c \<le> k \<and> c \<noteq> []"
proof (induction k xs rule: chunks.induct)
  case (1 k xs)
  show ?case
  proof (cases "k = 0 \<or> xs = []")
    case True
    then show ?thesis using "1.prems" by (auto simp: chunks_Nil chunks_zero)
  next
    case False
    then have "chunks k xs = take k xs # chunks k (drop k xs)" by (simp add: chunks_step)
    then show ?thesis using "1.prems" "1.IH" False by auto
  qed
qed


lemma wrap64_id: "- (2 ^ 63) \<le> x \<Longrightarrow> x < 2 ^ 63 \<Longrightarrow> wrap64 x = x"
  by (simp add: wrap64_def)

lemma Batch_loop_done:
  assumes "Len s = Inr n" "int n \<le> i"
  shows "Batch_loop s bs i acc = Some (Inr acc)"
  using assms by (subst Batch_loop.simps) simp

lemma Batch_loop_chunks:
  assumes n: "int (length xs) \<le> 2 ^ 53" and bs: "1 \<le> bs" "bs \<le> int (length xs)" and i: "0 \<le> i"
  shows "Batch_loop (RV (SliceT t) (SliceV t xs)) bs i acc
       = Some (Inr (acc @ chunks (nat bs) (drop (nat i) xs)))"
  using i
proof (induction "nat (int (length xs) - i)" arbitrary: i acc rule: less_induct)
  case less
  let ?s = "RV (SliceT t) (SliceV t xs)" and ?n = "int (length xs)"
  show ?case
  proof (cases "i < ?n")
    case False
    then have "drop (nat i) xs = []" by simp
    moreover have "Batch_loop ?s bs i acc = Some (Inr acc)"
      using False by (intro Batch_loop_done[where n = "length xs"]) simp_all
    ultimately show ?thesis by (simp add: chunks_Nil)
  next
    case True
    let ?ys = "drop (nat i) xs"
    have w: "wrap64 (i + bs) = i + bs"
      using True bs n less.prems by (intro wrap64_id) auto
    have e: "min_via_float64 (i + bs) ?n = min (i + bs) ?n"
      using True bs n less.prems by (intro min_via_float64_exact) auto
    have sl: "Slice ?s i (min (i + bs) ?n)
        = Inr (RV (SliceT t) (SliceV t (take (nat bs) ?ys)))"
    proof -
      have "take (nat (min (i + bs) ?n - i)) ?ys = take (nat bs) ?ys"
        using True bs less.prems by (auto simp: min_def)
      then show ?thesis using True bs less.prems by auto
    qed
    have ne: "?ys \<noteq> []" using True less.prems by simp
    have dd: "drop (nat bs) ?ys = drop (nat (i + bs)) xs"
      using bs less.prems by (simp add: nat_add_distrib add.commute)
    have IH: "Batch_loop ?s bs (i + bs) (acc @ [take (nat bs) ?ys])
        = Some (Inr ((acc @ [take (nat bs) ?ys]) @ chunks (nat bs) (drop (nat (i + bs)) xs)))"
      using True bs less.prems by (intro less.hyps) auto
    have "chunks (nat bs) ?ys = take (nat bs) ?ys # chunks (nat bs) (drop (nat (i + bs)) xs)"
      using chunks_step[of "nat bs" ?ys] ne bs dd by simp
    then show ?thesis
      using True IH
      by (subst Batch_loop.simps)
         (simp add: w e sl ConvertSliceInterfaceToSlice_slice del: Slice.simps)
  qed
qed

lemma Batch_positive:
  assumes "is_slice S" "int (length (elems S)) \<le> 2 ^ 53" "1 \<le> b" "b < 2 ^ 63"
  shows "Batch S b = Some (Inr (chunks (min (nat b) (length (elems S))) (elems S)))"
proof -
  consider t where "S = NilSliceV t" | t where "S = SliceV t []"
    | t xs where "S = SliceV t xs" "xs \<noteq> []"
    using assms(1) unfolding is_slice_cases by blast
  then show ?thesis
  proof cases
    case 1
    then show ?thesis
      by (simp add: Batch_def ValueOf_def chunks_Nil Batch_loop_done[where n = 0])
  next
    case 2
    then show ?thesis
      by (simp add: Batch_def ValueOf_def chunks_Nil Batch_loop_done[where n = 0])
  next
    case 3
    let ?n = "int (length xs)"
    have n: "?n \<le> 2 ^ 53" "0 < ?n" using assms(2) 3 by auto
    have m: "min_via_float64 b ?n = min b ?n"
      using assms n by (intro min_via_float64_exact) auto
    have "1 \<le> ?n" using n(2) by linarith
    then have "Batch_loop (RV (SliceT t) (SliceV t xs)) (min b ?n) 0 []
        = Some (Inr ([] @ chunks (nat (min b ?n)) (drop (nat 0) xs)))"
      using n(1) assms(3) by (intro Batch_loop_chunks) simp_all
    moreover have "nat (min b ?n) = min (nat b) (length xs)" using assms(3) by (auto simp: min_def)
    ultimately show ?thesis using 3 by (simp add: Batch_def ValueOf_def m)
  qed
qed

lemma Batch_empty:
  assumes "is_slice S" "elems S = []"
  shows "Batch S b = Some (Inr [])"
proof -
  consider t where "S = NilSliceV t" | t where "S = SliceV t []"
    using assms unfolding is_slice_cases by auto
  then show ?thesis
    by cases (simp_all add: Batch_def ValueOf_def Batch_loop_done[where n = 0])
qed

lemma Batch_negative:
  assumes "is_slice S" "elems S \<noteq> []" "int (length (elems S)) \<le> 2 ^ 53"
    and "b < 0" "- (2 ^ 63) \<le> b"
  shows "Batch S b = Some (Inl SliceBounds)"
proof -
  obtain t xs where S: "S = SliceV t xs" "xs \<noteq> []"
    using assms(1,2) unfolding is_slice_cases by auto
  let ?n = "int (length xs)" and ?bs = "min_via_float64 b (int (length xs))"
  have n: "?n \<le> 2 ^ 53" "0 < ?n" using assms(3) S by auto
  have neg: "?bs < 0"
  proof (rule min_via_float64_negative)
    show "b < 0" "- (2 ^ 63) \<le> b" by (rule assms)+
    show "0 \<le> ?n" by simp
    show "?n \<le> 2 ^ 53" by (rule n(1))
  qed
  have lo: "- (2 ^ 63) \<le> ?bs"
    by (auto simp: min_via_float64_def int_of_float64_def Let_def split: f64.splits)
  have w: "wrap64 ?bs = ?bs" using neg lo by (simp add: wrap64_id)
  have "min_via_float64 ?bs ?n < 0"
  proof (rule min_via_float64_negative)
    show "?bs < 0" by (rule neg)
    show "- (2 ^ 63) \<le> ?bs" by (rule lo)
    show "0 \<le> ?n" by simp
    show "?n \<le> 2 ^ 53" by (rule n(1))
  qed
  then have sl: "Slice (RV (SliceT t) (SliceV t xs)) 0 (min_via_float64 ?bs ?n) = Inl SliceBounds"
    by simp
  have "Batch_loop (RV (SliceT t) (SliceV t xs)) ?bs 0 [] = Some (Inl SliceBounds)"
    using n by (subst Batch_loop.simps) (simp add: w sl del: Slice.simps)
  then show ?thesis using S by (simp add: Batch_def ValueOf_def)
qed

lemma Batch_loop_zero_diverges:
  assumes n: "int (length xs) \<le> 2 ^ 53" and run: "Batch_loop s bs i acc = Some y"
  shows "\<not> (s = RV (SliceT t) (SliceV t xs) \<and> bs = 0 \<and> 0 \<le> i \<and> i < int (length xs))"
proof (rule Batch_loop.raw_induct[OF _ run], goal_cases)
  case (1 loop s' bs' i' acc' y')
  show ?case
  proof
    assume a: "s' = RV (SliceT t) (SliceV t xs) \<and> bs' = 0 \<and> 0 \<le> i' \<and> i' < int (length xs)"
    let ?n = "int (length xs)"
    have w: "wrap64 (i' + bs') = i'" using a n by (simp add: wrap64_id)
    have e: "min_via_float64 i' ?n = i'"
      using a n min_via_float64_exact[of i' ?n] by auto
    have sl: "Slice s' i' i' = Inr (RV (SliceT t) (SliceV t []))" using a by simp
    have "loop s' bs' i' (acc' @ [[]]) = Some y'"
      using 1(2) a w e sl by (simp add: ConvertSliceInterfaceToSlice_slice del: Slice.simps)
    from 1(1)[OF this] a show False by simp
  qed
qed

lemma Batch_zero:
  assumes "is_slice S" "elems S \<noteq> []" "int (length (elems S)) \<le> 2 ^ 53"
  shows "Batch S 0 = None"
proof -
  obtain t xs where S: "S = SliceV t xs" "xs \<noteq> []"
    using assms(1,2) unfolding is_slice_cases by auto
  let ?n = "int (length xs)"
  have n: "?n \<le> 2 ^ 53" "0 < ?n" using assms(3) S by auto
  have m: "min_via_float64 0 ?n = 0"
    using min_via_float64_exact[of 0 ?n] n by simp
  have "Batch_loop (RV (SliceT t) (SliceV t xs)) 0 0 [] = None"
  proof (cases "Batch_loop (RV (SliceT t) (SliceV t xs)) 0 0 []")
    case None
    then show ?thesis .
  next
    case (Some y)
    from Batch_loop_zero_diverges[OF n(1) Some, of t] n show ?thesis by simp
  qed
  then show ?thesis using S by (simp add: Batch_def ValueOf_def m)
qed


lemma Batch_example:
  "Batch (SliceV (IntT I) [IntV I 1, IntV I 2, IntV I 3, IntV I 4, IntV I 5]) 2
     = Some (Inr [[IntV I 1, IntV I 2], [IntV I 3, IntV I 4], [IntV I 5]])"
proof -
  let ?S = "SliceV (IntT I) [IntV I 1, IntV I 2, IntV I 3, IntV I 4, IntV I 5]"
  have "is_slice ?S" by (simp add: is_slice_def ValueOf_def)
  then have "Batch ?S 2 = Some (Inr (chunks (min (nat 2) (length (elems ?S))) (elems ?S)))"
    by (rule Batch_positive) simp_all
  then show ?thesis by (simp add: chunks.simps)
qed

text \<open>
  Claim C4. For a slice \<open>S\<close> and a batch size \<open>b > 0\<close>, \<open>Batch\<close> returns, and the
  batches concatenated in order are the elements of \<open>S\<close>; every batch has at most
  \<open>b\<close> elements (and at most as many as \<open>S\<close>); every batch but the last has exactly
  \<open>min b (len S)\<close> elements, so only the last may be shorter; batch \<open>j\<close> is the run of
  \<open>S\<close> that starts at position \<open>j * min b (len S)\<close>, so the batches follow the order of
  the source. The batch size is an \<open>int\<close> (below \<open>2 ^ 63\<close>). The bound on the length is
  the one within which \<open>float64\<close> holds every index exactly; the result holds one boxed
  value of 16 bytes for each element of \<open>S\<close>, so no call that returns has a longer
  argument.
\<close>

theorem Batch_partition:
  assumes "is_slice S" "int (length (elems S)) \<le> 2 ^ 53" "0 < b" "b < 2 ^ 63"
  shows "\<exists>bs. Batch S b = Some (Inr bs)
       \<and> concat bs = elems S
       \<and> (\<forall>c \<in> set bs. length c \<le> nat b \<and> length c \<le> length (elems S))
       \<and> (\<forall>j. Suc j < length bs \<longrightarrow> length (bs ! j) = min (nat b) (length (elems S)))
       \<and> (\<forall>j < length bs. bs ! j = take (min (nat b) (length (elems S)))
                                        (drop (j * min (nat b) (length (elems S))) (elems S)))"
proof -
  let ?xs = "elems S"
  let ?k = "min (nat b) (length ?xs)"
  let ?bs = "chunks ?k ?xs"
  have run: "Batch S b = Some (Inr ?bs)"
    using assms by (intro Batch_positive) auto
  show ?thesis
  proof (cases "?xs = []")
    case True
    then show ?thesis using run by (simp add: chunks_Nil)
  next
    case False
    then have k: "0 < ?k" using assms(3) by simp
    have 1: "concat ?bs = ?xs" using k by (rule concat_chunks)
    have 2: "\<forall>c \<in> set ?bs. length c \<le> nat b \<and> length c \<le> length ?xs"
      using chunks_length_le[of _ ?k ?xs] by auto
    have 3: "\<forall>j. Suc j < length ?bs \<longrightarrow> length (?bs ! j) = ?k"
      using chunks_length_full[OF k] by blast
    have 4: "\<forall>j < length ?bs. ?bs ! j = take ?k (drop (j * ?k) ?xs)"
      using chunks_nth[OF k] by blast
    show ?thesis using run 1 2 3 4 by blast
  qed
qed

theorem Batch_partition_witness:
  "is_slice (SliceV (IntT I) [IntV I 1, IntV I 2, IntV I 3, IntV I 4, IntV I 5])
   \<and> int (length (elems (SliceV (IntT I) [IntV I 1, IntV I 2, IntV I 3, IntV I 4, IntV I 5]))) \<le> 2 ^ 53
   \<and> (0::int) < 2 \<and> (2::int) < 2 ^ 63
   \<and> Batch (SliceV (IntT I) [IntV I 1, IntV I 2, IntV I 3, IntV I 4, IntV I 5]) 2
       = Some (Inr [[IntV I 1, IntV I 2], [IntV I 3, IntV I 4], [IntV I 5]])
   \<and> (\<exists>bs. Batch (SliceV (IntT I) [IntV I 1, IntV I 2, IntV I 3, IntV I 4, IntV I 5]) 2 = Some (Inr bs)
         \<and> concat bs = [IntV I 1, IntV I 2, IntV I 3, IntV I 4, IntV I 5]
         \<and> (\<forall>c \<in> set bs. length c \<le> 2))"
proof -
  let ?S = "SliceV (IntT I) [IntV I 1, IntV I 2, IntV I 3, IntV I 4, IntV I 5]"
  have h: "is_slice ?S" "int (length (elems ?S)) \<le> 2 ^ 53" "(0::int) < 2" "(2::int) < 2 ^ 63"
    by (simp_all add: is_slice_def ValueOf_def)
  from Batch_partition[OF h] obtain bs where
    "Batch ?S 2 = Some (Inr bs)" "concat bs = elems ?S"
    "\<forall>c \<in> set bs. length c \<le> nat 2 \<and> length c \<le> length (elems ?S)"
    by blast
  then have "\<exists>bs. Batch ?S 2 = Some (Inr bs)
      \<and> concat bs = [IntV I 1, IntV I 2, IntV I 3, IntV I 4, IntV I 5]
      \<and> (\<forall>c \<in> set bs. length c \<le> 2)"
    by auto
  then show ?thesis using h Batch_example by blast
qed

text \<open>
  Claim C7 says that on a non-empty sequence every batch size \<open>b \<le> 0\<close> makes the call
  run forever. For a negative \<open>b\<close> the call ends: the first iteration asks reflect
  for the slice from \<open>0\<close> to a negative end, which panics.
\<close>

theorem Batch_negative_counterexample:
  "Batch (SliceV (IntT I) [IntV I 1]) (- 1) = Some (Inl SliceBounds)"
  by (rule Batch_negative) (simp_all add: is_slice_def ValueOf_def)

text \<open>
  Claim C7, amended. \<open>Batch\<close> returns for every slice and every batch size \<open>b \<ge> 1\<close>.
  On a non-empty slice, \<open>b = 0\<close> leaves the loop index where it is and the call does
  not return (\<open>None\<close>), and \<open>b < 0\<close> ends the call in the first iteration with
  reflect's panic for slice bounds out of range. On an empty slice every \<open>b\<close>
  returns no batches.
\<close>

theorem Batch_termination:
  assumes "is_slice S" "int (length (elems S)) \<le> 2 ^ 53" "- (2 ^ 63) \<le> b" "b < 2 ^ 63"
  shows "(1 \<le> b \<longrightarrow> (\<exists>bs. Batch S b = Some (Inr bs)))
       \<and> (b = 0 \<and> elems S \<noteq> [] \<longrightarrow> Batch S b = None)
       \<and> (b < 0 \<and> elems S \<noteq> [] \<longrightarrow> Batch S b = Some (Inl SliceBounds))
       \<and> (elems S = [] \<longrightarrow> Batch S b = Some (Inr []))"
proof -
  have 1: "1 \<le> b \<longrightarrow> (\<exists>bs. Batch S b = Some (Inr bs))"
    using Batch_positive[OF assms(1,2) _ assms(4)] by blast
  have 2: "b = 0 \<and> elems S \<noteq> [] \<longrightarrow> Batch S b = None"
    using Batch_zero[OF assms(1) _ assms(2)] by auto
  have 3: "b < 0 \<and> elems S \<noteq> [] \<longrightarrow> Batch S b = Some (Inl SliceBounds)"
    using Batch_negative[OF assms(1) _ assms(2) _ assms(3)] by blast
  have 4: "elems S = [] \<longrightarrow> Batch S b = Some (Inr [])"
    using Batch_empty[OF assms(1)] by blast
  show ?thesis using 1 2 3 4 by blast
qed

theorem Batch_termination_witness:
  "is_slice (SliceV (IntT I) [IntV I 1, IntV I 2])
   \<and> int (length (elems (SliceV (IntT I) [IntV I 1, IntV I 2]))) \<le> 2 ^ 53
   \<and> - (2 ^ 63) \<le> (0::int) \<and> (0::int) < 2 ^ 63
   \<and> Batch (SliceV (IntT I) [IntV I 1, IntV I 2]) 0 = None
   \<and> Batch (SliceV (IntT I) [IntV I 1, IntV I 2]) (- 3) = Some (Inl SliceBounds)
   \<and> (\<exists>bs. Batch (SliceV (IntT I) [IntV I 1, IntV I 2]) 3 = Some (Inr bs))"
proof -
  let ?S = "SliceV (IntT I) [IntV I 1, IntV I 2]"
  have h: "is_slice ?S" "int (length (elems ?S)) \<le> 2 ^ 53"
    by (simp_all add: is_slice_def ValueOf_def)
  have "Batch ?S 0 = None" using Batch_termination[OF h, of 0] by simp
  moreover have "Batch ?S (- 3) = Some (Inl SliceBounds)"
    using Batch_termination[OF h, of "- 3"] by simp
  moreover have "\<exists>bs. Batch ?S 3 = Some (Inr bs)"
    using Batch_termination[OF h, of 3] by simp
  ultimately show ?thesis using h by simp
qed

section \<open>Properties of SaveAsCSV\<close>

lemma wf_fields_length: "wf_fields fds vs \<Longrightarrow> length vs = length fds"
proof (induction fds arbitrary: vs)
  case Nil
  then show ?case by simp
next
  case (Cons f fds)
  then show ?case by (cases vs) auto
qed

lemma wf_record:
  assumes "wf_elems (StructT n fds) xs" "k < length xs"
  shows "\<exists>vs. xs ! k = StructV n fds vs \<and> length vs = length fds"
proof -
  have "wf_at (StructT n fds) (xs ! k)" using assms by (rule wf_elems_nth)
  then have w: "wf_val (xs ! k)" and t: "TypeOf (xs ! k) = Some (StructT n fds)" by simp_all
  from t obtain vs where x: "xs ! k = StructV n fds vs" by (cases "xs ! k") auto
  then have "wf_fields fds vs" using w by simp
  then show ?thesis using x wf_fields_length by blast
qed

lemma SaveAsCSV_header_eq:
  assumes "0 \<le> i" "length h = length fds"
  shows "SaveAsCSV_header (StructT n fds) i h
       = Inr (if i \<le> int (length fds) then take (nat i) h @ drop (nat i) (map fst fds) else h)"
  using assms
proof (induction "nat (int (length fds) - i)" arbitrary: i h)
  case 0
  then have "int (length fds) \<le> i" by simp
  then show ?case using 0 by (subst SaveAsCSV_header.simps) auto
next
  case (Suc k)
  then have lt: "i < int (length fds)" by simp
  let ?v = "fst (fds ! nat i)"
  have "SaveAsCSV_header (StructT n fds) (i + 1) (h[nat i := ?v])
      = Inr (if i + 1 \<le> int (length fds)
             then take (nat (i + 1)) (h[nat i := ?v]) @ drop (nat (i + 1)) (map fst fds)
             else h[nat i := ?v])"
    using Suc.hyps(2) Suc.prems lt by (intro Suc.hyps(1)) auto
  moreover have "take (nat (i + 1)) (h[nat i := ?v]) @ drop (nat (i + 1)) (map fst fds)
      = take (nat i) h @ drop (nat i) (map fst fds)"
  proof -
    have n: "nat (i + 1) = Suc (nat i)" using Suc.prems by simp
    have l: "nat i < length fds" "nat i < length h" using lt Suc.prems by auto
    have "take (Suc (nat i)) (h[nat i := ?v]) = take (nat i) h @ [?v]"
      using l by (simp add: take_Suc_conv_app_nth)
    moreover have "drop (nat i) (map fst fds) = ?v # drop (Suc (nat i)) (map fst fds)"
      using l by (simp add: Cons_nth_drop_Suc[symmetric])
    ultimately show ?thesis unfolding n by simp
  qed
  ultimately show ?case using lt Suc.prems
    by (subst SaveAsCSV_header.simps) simp
qed

lemma SaveAsCSV_header_names:
  "SaveAsCSV_header (StructT n fds) 0 (replicate (length fds) []) = Inr (map fst fds)"
  using SaveAsCSV_header_eq[of 0 "replicate (length fds) []" fds n] by simp

text \<open>The inner loop on a well-formed record: a failed assertion, a field that is not
  exported, or a row, and then every field from \<open>j\<close> on holds a string.\<close>

lemma SaveAsCSV_row_result:
  assumes "0 \<le> i" "i < int (length xs)" "xs ! nat i = StructV n fds vs" "length vs = length fds"
    and "0 \<le> j" "length row = length fds"
  shows "SaveAsCSV_row (StructT n fds) (RV (SliceT (StructT n fds)) (SliceV (StructT n fds) xs)) i j row
           \<in> {Inl TypeAssertion, Inl UnexportedField}
       \<or> (\<exists>row'. SaveAsCSV_row (StructT n fds) (RV (SliceT (StructT n fds)) (SliceV (StructT n fds) xs)) i j row
              = Inr row'
           \<and> (\<forall>k. nat j \<le> k \<and> k < length fds \<longrightarrow> is_string (vs ! k)))"
  using assms(5,6)
proof (induction "nat (int (length fds) - j)" arbitrary: j row)
  case 0
  then have "int (length fds) \<le> j" by simp
  then show ?case by (subst (1 2) SaveAsCSV_row.simps) auto
next
  case (Suc m)
  let ?dt = "StructT n fds"
  let ?dv = "RV (SliceT ?dt) (SliceV ?dt xs)"
  from Suc have lt: "j < int (length fds)" by simp
  have idx: "Index ?dv i = Inr (RV ?dt (StructV n fds vs))"
    using assms(1,2,3) by simp
  have fi: "Field_Interface (RV ?dt (StructV n fds vs)) j
      = (if exported (fst (fds ! nat j)) then Inr (vs ! nat j) else Inl UnexportedField)"
    using lt Suc.prems assms(4) by simp
  show ?case
  proof (cases "exported (fst (fds ! nat j)) \<and> is_string (vs ! nat j)")
    case False
    then have "pbind (Index ?dv i) (\<lambda>r. pbind (Field_Interface r j) assert_string)
        \<in> {Inl TypeAssertion, Inl UnexportedField}"
      unfolding idx pbind_Inr fi by (cases "vs ! nat j") (auto simp: pbind_def)
    then have "SaveAsCSV_row ?dt ?dv i j row \<in> {Inl TypeAssertion, Inl UnexportedField}"
      using lt by (subst SaveAsCSV_row.simps) auto
    then show ?thesis by blast
  next
    case True
    then obtain s where s: "vs ! nat j = StringV s" by (cases "vs ! nat j") auto
    have get: "pbind (Index ?dv i) (\<lambda>r. pbind (Field_Interface r j) assert_string) = Inr s"
      unfolding idx pbind_Inr fi using True s by (simp add: pbind_def)
    have step: "SaveAsCSV_row ?dt ?dv i j row = SaveAsCSV_row ?dt ?dv i (j + 1) (row[nat j := s])"
      using lt Suc.prems get by (subst SaveAsCSV_row.simps) simp
    have IH: "SaveAsCSV_row ?dt ?dv i (j + 1) (row[nat j := s]) \<in> {Inl TypeAssertion, Inl UnexportedField}
       \<or> (\<exists>row'. SaveAsCSV_row ?dt ?dv i (j + 1) (row[nat j := s]) = Inr row'
           \<and> (\<forall>k. nat (j + 1) \<le> k \<and> k < length fds \<longrightarrow> is_string (vs ! k)))"
      using Suc.hyps(2) Suc.prems lt by (intro Suc.hyps(1)) auto
    have "(\<forall>k. nat (j + 1) \<le> k \<and> k < length fds \<longrightarrow> is_string (vs ! k))
        \<Longrightarrow> (\<forall>k. nat j \<le> k \<and> k < length fds \<longrightarrow> is_string (vs ! k))"
    proof (intro allI impI)
      fix k assume a: "\<forall>k. nat (j + 1) \<le> k \<and> k < length fds \<longrightarrow> is_string (vs ! k)"
        and k: "nat j \<le> k \<and> k < length fds"
      show "is_string (vs ! k)"
      proof (cases "k = nat j")
        case True
        then show ?thesis using s by simp
      next
        case False
        then have "nat (j + 1) \<le> k" using k Suc.prems by auto
        then show ?thesis using a k by blast
      qed
    qed
    then show ?thesis using IH unfolding step by blast
  qed
qed


lemma SaveAsCSV_rows_result:
  assumes "wf_elems (StructT n fds) xs" "0 \<le> i"
  shows "fst (SaveAsCSV_rows (StructT n fds) (RV (SliceT (StructT n fds)) (SliceV (StructT n fds) xs)) i w)
           \<in> {Some TypeAssertion, Some UnexportedField}
       \<or> (fst (SaveAsCSV_rows (StructT n fds) (RV (SliceT (StructT n fds)) (SliceV (StructT n fds) xs)) i w)
             = None
           \<and> (\<forall>k. nat i \<le> k \<and> k < length xs \<longrightarrow> (\<forall>v \<in> set (field_values (xs ! k)). is_string v)))"
  using assms(2)
proof (induction "nat (int (length xs) - i)" arbitrary: i w)
  case 0
  then have "int (length xs) \<le> i" by simp
  then show ?case by (subst (1 2) SaveAsCSV_rows.simps) auto
next
  case (Suc m)
  let ?dt = "StructT n fds"
  let ?dv = "RV (SliceT ?dt) (SliceV ?dt xs)"
  from Suc have lt: "i < int (length xs)" by simp
  then have "nat i < length xs" using Suc.prems by simp
  from wf_record[OF assms(1) this] obtain vs where
    x: "xs ! nat i = StructV n fds vs" "length vs = length fds" by blast
  have row: "SaveAsCSV_row ?dt ?dv i 0 (replicate (length fds) [])
           \<in> {Inl TypeAssertion, Inl UnexportedField}
       \<or> (\<exists>row'. SaveAsCSV_row ?dt ?dv i 0 (replicate (length fds) []) = Inr row'
           \<and> (\<forall>k. nat 0 \<le> k \<and> k < length fds \<longrightarrow> is_string (vs ! k)))"
    using Suc.prems lt x by (intro SaveAsCSV_row_result) simp_all
  then consider "SaveAsCSV_row ?dt ?dv i 0 (replicate (length fds) []) = Inl TypeAssertion"
    | "SaveAsCSV_row ?dt ?dv i 0 (replicate (length fds) []) = Inl UnexportedField"
    | row' where "SaveAsCSV_row ?dt ?dv i 0 (replicate (length fds) []) = Inr row'"
        "\<forall>k. k < length fds \<longrightarrow> is_string (vs ! k)"
    by auto
  then show ?case
  proof cases
    case 1
    then have "fst (SaveAsCSV_rows ?dt ?dv i w) = Some TypeAssertion"
      using lt by (subst SaveAsCSV_rows.simps) simp
    then show ?thesis by simp
  next
    case 2
    then have "fst (SaveAsCSV_rows ?dt ?dv i w) = Some UnexportedField"
      using lt by (subst SaveAsCSV_rows.simps) simp
    then show ?thesis by simp
  next
    case 3
    have step: "SaveAsCSV_rows ?dt ?dv i w = SaveAsCSV_rows ?dt ?dv (i + 1) (w @ [row'])"
      using lt 3(1) by (subst SaveAsCSV_rows.simps) simp
    have here: "\<forall>v \<in> set (field_values (xs ! nat i)). is_string v"
      using 3(2) x by (auto simp: in_set_conv_nth)
    have IH: "fst (SaveAsCSV_rows ?dt ?dv (i + 1) (w @ [row'])) \<in> {Some TypeAssertion, Some UnexportedField}
       \<or> (fst (SaveAsCSV_rows ?dt ?dv (i + 1) (w @ [row'])) = None
           \<and> (\<forall>k. nat (i + 1) \<le> k \<and> k < length xs \<longrightarrow> (\<forall>v \<in> set (field_values (xs ! k)). is_string v)))"
      using Suc.hyps(2) Suc.prems lt by (intro Suc.hyps(1)) auto
    have "(\<forall>k. nat (i + 1) \<le> k \<and> k < length xs \<longrightarrow> (\<forall>v \<in> set (field_values (xs ! k)). is_string v))
        \<Longrightarrow> (\<forall>k. nat i \<le> k \<and> k < length xs \<longrightarrow> (\<forall>v \<in> set (field_values (xs ! k)). is_string v))"
    proof (intro allI impI)
      fix k
      assume a: "\<forall>k. nat (i + 1) \<le> k \<and> k < length xs \<longrightarrow> (\<forall>v \<in> set (field_values (xs ! k)). is_string v)"
        and k: "nat i \<le> k \<and> k < length xs"
      show "\<forall>v \<in> set (field_values (xs ! k)). is_string v"
      proof (cases "k = nat i")
        case True
        then show ?thesis using here by simp
      next
        case False
        then have "nat (i + 1) \<le> k" using k Suc.prems by auto
        then show ?thesis using a k by blast
      qed
    qed
    then show ?thesis using IH unfolding step by blast
  qed
qed

lemma SaveAsCSV_write_non_string:
  assumes "wf_val (SliceV (StructT n fds) xs)"
    and "\<exists>x \<in> set xs. \<exists>v \<in> set (field_values x). \<not> is_string v"
  shows "fst (SaveAsCSV_write (SliceV (StructT n fds) xs)) \<in> {Some TypeAssertion, Some UnexportedField}"
proof -
  let ?dt = "StructT n fds"
  let ?dv = "RV (SliceT ?dt) (SliceV ?dt xs)"
  have wf: "wf_elems ?dt xs" using assms(1) by simp
  from assms(2) obtain x where x: "x \<in> set xs" "\<exists>v \<in> set (field_values x). \<not> is_string v"
    by blast
  then obtain k where k: "k < length xs" "\<exists>v \<in> set (field_values (xs ! k)). \<not> is_string v"
    unfolding in_set_conv_nth[of x xs] by blast
  have w: "SaveAsCSV_write (SliceV ?dt xs) = SaveAsCSV_rows ?dt ?dv 0 [map fst fds]"
    by (simp add: SaveAsCSV_write_def SaveAsCSV_header_names ValueOf_def)
  from SaveAsCSV_rows_result[OF wf, of 0 "[map fst fds]"] k show ?thesis
    unfolding w by auto
qed

lemma SaveAsCSV_create_fails:
  assumes "create_error fs filename = Some err"
  shows "SaveAsCSV fs data filename = (Inr (Some err), fs)"
  using assms by (simp add: SaveAsCSV_def os_Create_def)

lemma SaveAsCSV_non_string:
  assumes "create_error fs filename = None" "wf_val (SliceV (StructT n fds) xs)"
    and "\<exists>x \<in> set xs. \<exists>v \<in> set (field_values x). \<not> is_string v"
  shows "fst (SaveAsCSV fs (SliceV (StructT n fds) xs) filename) \<in> {Inl TypeAssertion, Inl UnexportedField}"
proof -
  obtain p w where pw: "SaveAsCSV_write (SliceV (StructT n fds) xs) = (p, w)" by (cases "SaveAsCSV_write (SliceV (StructT n fds) xs)")
  with SaveAsCSV_write_non_string[OF assms(2,3)]
  have "p = Some TypeAssertion \<or> p = Some UnexportedField" by simp
  then show ?thesis using assms(1) pw by (auto simp: SaveAsCSV_def os_Create_def)
qed

text \<open>
  Claim C9. When \<open>os.Create\<close> fails, \<open>SaveAsCSV\<close> returns that error to the caller
  and the file system is as before the call: nothing was created and no row was
  written. When the destination can be created and some record of a well-formed slice of
  structs has a field whose value is not a string, the call panics, with the failed type
  assertion \<open>.(string)\<close> (or, if it meets an unexported field first, with reflect's
  refusal to hand it out); it never returns having written a converted value.
\<close>

theorem SaveAsCSV_failures:
  "(create_error fs filename = Some err \<longrightarrow> SaveAsCSV fs data filename = (Inr (Some err), fs))
   \<and> (create_error fs filename = None \<and> data = SliceV (StructT n fds) xs \<and> wf_val data
        \<and> (\<exists>x \<in> set xs. \<exists>v \<in> set (field_values x). \<not> is_string v)
      \<longrightarrow> fst (SaveAsCSV fs data filename) \<in> {Inl TypeAssertion, Inl UnexportedField})"
  using SaveAsCSV_create_fails[of fs filename err data] SaveAsCSV_non_string[of fs filename n fds xs]
  by blast

theorem SaveAsCSV_failures_witness:
  "create_error example_fs ''/nowhere/out.csv'' = Some (PathError ''open'' ''/nowhere/out.csv'')
   \<and> SaveAsCSV example_fs (SliceV (StructT ''Person'' person) [StructV ''Person'' person [StringV ''Alice'', IntV I 25]])
        ''/nowhere/out.csv''
       = (Inr (Some (PathError ''open'' ''/nowhere/out.csv'')), example_fs)
   \<and> create_error example_fs ''out.csv'' = None
   \<and> wf_val (SliceV (StructT ''Person'' person) [StructV ''Person'' person [StringV ''Alice'', IntV I 25]])
   \<and> fst (SaveAsCSV example_fs (SliceV (StructT ''Person'' person) [StructV ''Person'' person [StringV ''Alice'', IntV I 25]])
        ''out.csv'') = Inl TypeAssertion"
proof -
  let ?d = "SliceV (StructT ''Person'' person) [StructV ''Person'' person [StringV ''Alice'', IntV I 25]]"
  have a: "create_error example_fs ''/nowhere/out.csv'' = Some (PathError ''open'' ''/nowhere/out.csv'')"
    and b: "create_error example_fs ''out.csv'' = None"
    by (simp_all add: example_fs_def)
  have w: "wf_val ?d" by (simp add: person_def)
  have n: "\<exists>x \<in> set [StructV ''Person'' person [StringV ''Alice'', IntV I 25]].
             \<exists>v \<in> set (field_values x). \<not> is_string v" by simp
  have 1: "SaveAsCSV example_fs ?d ''/nowhere/out.csv''
       = (Inr (Some (PathError ''open'' ''/nowhere/out.csv'')), example_fs)"
    using SaveAsCSV_failures[of example_fs "''/nowhere/out.csv''" "PathError ''open'' ''/nowhere/out.csv''" ?d] a
    by blast
  have "fst (SaveAsCSV example_fs ?d ''out.csv'') \<in> {Inl TypeAssertion, Inl UnexportedField}"
    using SaveAsCSV_failures[of example_fs "''out.csv''" _ ?d "''Person''" person
        "[StructV ''Person'' person [StringV ''Alice'', IntV I 25]]"] b w n
    by blast
  moreover have "fst (SaveAsCSV example_fs ?d ''out.csv'') \<noteq> Inl UnexportedField"
    by (simp add: SaveAsCSV_def os_Create_def example_fs_def SaveAsCSV_write_def person_def
        SaveAsCSV_header.simps SaveAsCSV_rows.simps SaveAsCSV_row.simps ValueOf_def pbind_def exported_def)
  ultimately have 2: "fst (SaveAsCSV example_fs ?d ''out.csv'') = Inl TypeAssertion" by blast
  show ?thesis using a b w 1 2 by blast
qed

section \<open>Properties of Reverse\<close>

lemma Reverse_loop_mixed:
  "slice < length h \<Longrightarrow> result < length h \<Longrightarrow> slice \<noteq> result \<Longrightarrow>
   length (h ! result) = length (h ! slice) \<Longrightarrow> 0 \<le> i \<Longrightarrow>
   i + j = int (length (h ! slice)) - 1 \<Longrightarrow>
   Reverse_loop h slice result i j
     = Inr (h[result := mixed (h ! slice) (h ! result) i j])"
proof (induction h slice result i j rule: Reverse_loop.induct)
  case (1 h slice result i j)
  let ?src = "h ! slice" and ?old = "h ! result"
  let ?n = "length ?src"
  show ?case
  proof (cases "i \<le> j")
    case False
    have "mixed ?src ?old i j = ?old"
      using False "1.prems" by (auto simp: mixed_def intro!: nth_equalityI)
    then show ?thesis using False by (simp add: Reverse_loop.simps[of h])
  next
    case True
    have bi: "0 \<le> i" "i < int ?n" and bj: "0 \<le> j" "j < int ?n"
      using True "1.prems" by auto
    define h1 where "h1 = h[result := ?old[nat i := ?src ! nat j]]"
    define h2 where "h2 = h1[result := (h1 ! result)[nat j := ?src ! nat i]]"
    have r1: "index_read h slice j = Inr (?src ! nat j)"
      and r2: "index_read h slice i = Inr (?src ! nat i)"
      using bi bj by (simp_all add: index_read_def)
    have w1: "index_write h result i (?src ! nat j) = Inr h1"
      using bi "1.prems" by (simp add: index_write_def h1_def)
    have w2: "index_write h1 result j (?src ! nat i) = Inr h2"
      using bj "1.prems" by (simp add: index_write_def h1_def h2_def)
    have h2s: "h2 ! slice = ?src" "length h2 = length h"
      and h2r: "h2 ! result = ?old[nat i := ?src ! nat j, nat j := ?src ! nat i]"
      using "1.prems" by (simp_all add: h1_def h2_def)
    have IH: "Reverse_loop h2 slice result (i + 1) (j - 1)
        = Inr (h2[result := mixed (h2 ! slice) (h2 ! result) (i + 1) (j - 1)])"
      using "1.IH"[OF True r1 r2 w1 w2] "1.prems" bi h2s h2r by simp
    have "mixed ?src (h2 ! result) (i + 1) (j - 1) = mixed ?src ?old i j"
      unfolding mixed_def h2r
    proof (rule map_cong[OF refl])
      fix k assume "k \<in> set [0..<?n]"
      then have k: "k < ?n" by simp
      show "(if i + 1 \<le> int k \<and> int k \<le> j - 1 then ?src ! (?n - 1 - k)
             else ?old[nat i := ?src ! nat j, nat j := ?src ! nat i] ! k)
          = (if i \<le> int k \<and> int k \<le> j then ?src ! (?n - 1 - k) else ?old ! k)"
      proof -
        have ij: "nat j = ?n - 1 - nat i" "nat i = ?n - 1 - nat j"
          using "1.prems" bi bj by auto
        have lo: "length ?old = ?n" using "1.prems" by simp
        have ai: "nat i < ?n" and aj: "nat j < ?n" using bi bj by auto
        consider "int k = i" | "int k = j" "int k \<noteq> i" | "int k \<noteq> i" "int k \<noteq> j" by blast
        then show ?thesis
        proof cases
          case 1
          then have ki: "k = nat i" by simp
          have "?old[nat i := ?src ! nat j, nat j := ?src ! nat i] ! nat i = ?src ! nat j"
            using ai aj lo by (cases "nat i = nat j") simp_all
          moreover have "?src ! (?n - 1 - nat i) = ?src ! nat j" using ij by simp
          moreover have "\<not> (i + 1 \<le> int k \<and> int k \<le> j - 1)" using 1 by simp
          moreover have "i \<le> int k \<and> int k \<le> j" using 1 True by simp
          ultimately show ?thesis unfolding ki by simp
        next
          case 2
          then have kj: "k = nat j" and ne: "nat i \<noteq> nat j" using bi bj by auto
          have "?old[nat i := ?src ! nat j, nat j := ?src ! nat i] ! nat j = ?src ! nat i"
            using aj lo by simp
          moreover have "?src ! (?n - 1 - nat j) = ?src ! nat i" using ij by simp
          moreover have "\<not> (i + 1 \<le> int k \<and> int k \<le> j - 1)" using 2 by simp
          moreover have "i \<le> int k \<and> int k \<le> j" using 2 True by simp
          ultimately show ?thesis unfolding kj by simp
        next
          case 3
          then have ne: "k \<noteq> nat i" "k \<noteq> nat j" using bi bj by auto
          have "?old[nat i := ?src ! nat j, nat j := ?src ! nat i] ! k = ?old ! k"
            using ne by simp
          moreover have "(i + 1 \<le> int k \<and> int k \<le> j - 1) = (i \<le> int k \<and> int k \<le> j)"
            using 3 by auto
          ultimately show ?thesis by simp
        qed
      qed
    qed
    then have eq: "mixed (h2 ! slice) (h2 ! result) (i + 1) (j - 1) = mixed ?src ?old i j"
      using h2s by simp
    have "h2[result := Y] = h[result := Y]" for Y
      by (simp add: h1_def h2_def)
    with eq have "h2[result := mixed (h2 ! slice) (h2 ! result) (i + 1) (j - 1)]
        = h[result := mixed ?src ?old i j]"
      by simp
    then show ?thesis
      using True r1 r2 w1 w2 IH by (simp add: Reverse_loop.simps[of h])
  qed
qed


lemma mixed_all: "mixed src old 0 (int (length src) - 1) = rev src"
  by (auto simp: mixed_def rev_nth intro!: nth_equalityI)

lemma Reverse_result:
  assumes "slice < length h"
  shows "Reverse h slice = Inr (length h, h @ [rev (h ! slice)])"
proof -
  let ?src = "h ! slice" and ?h1 = "h @ [replicate (length (h ! slice)) NilV]"
  have s: "?h1 ! slice = ?src" using assms by (simp add: nth_append)
  have "Reverse_loop ?h1 slice (length h) 0 (int (length (?h1 ! slice)) - 1)
      = Inr (?h1[length h := mixed (?h1 ! slice) (?h1 ! length h) 0 (int (length (?h1 ! slice)) - 1)])"
    using assms by (intro Reverse_loop_mixed) (simp_all add: nth_append)
  then have "Reverse_loop ?h1 slice (length h) 0 (int (length ?src) - 1)
      = Inr (h @ [rev ?src])"
    unfolding s by (simp add: mixed_all)
  then show ?thesis by (simp add: Reverse_def make_slice_def)
qed

text \<open>
  Claim C10. Reversing twice gives back the original sequence. One application returns a
  new slice (an array that did not exist before, \<open>length h \<le> r\<close>) of the same length
  whose element \<open>k\<close> is element \<open>len - 1 - k\<close> of the argument, and every array that
  existed before the call, the argument's among them, is unchanged.
\<close>

theorem Reverse_involution:
  assumes "slice < length h"
  shows "\<exists>r h1 r2 h2.
           Reverse h slice = Inr (r, h1) \<and> Reverse h1 r = Inr (r2, h2)
         \<and> h2 ! r2 = h ! slice
         \<and> length (h1 ! r) = length (h ! slice)
         \<and> (\<forall>k < length (h ! slice). h1 ! r ! k = h ! slice ! (length (h ! slice) - 1 - k))
         \<and> length h \<le> r \<and> take (length h) h1 = h"
proof -
  let ?h1 = "h @ [rev (h ! slice)]"
  have 1: "Reverse h slice = Inr (length h, ?h1)"
    using assms by (rule Reverse_result)
  have "Reverse ?h1 (length h) = Inr (length ?h1, ?h1 @ [rev (?h1 ! length h)])"
    by (rule Reverse_result) simp
  then have 2: "Reverse ?h1 (length h) = Inr (Suc (length h), ?h1 @ [h ! slice])"
    by simp
  have 3: "(?h1 @ [h ! slice]) ! Suc (length h) = h ! slice"
    by (simp add: nth_append)
  have 4: "\<forall>k < length (h ! slice). ?h1 ! length h ! k = h ! slice ! (length (h ! slice) - 1 - k)"
    by (simp add: rev_nth)
  show ?thesis
    using 1 2 3 4 by simp
qed

theorem Reverse_involution_witness:
  "(0::nat) < length [[IntV I 1, IntV I 2, IntV I 3]] \<and>
   (\<exists>r h1 r2 h2.
      Reverse [[IntV I 1, IntV I 2, IntV I 3]] 0 = Inr (r, h1)
    \<and> Reverse h1 r = Inr (r2, h2)
    \<and> h2 ! r2 = [IntV I 1, IntV I 2, IntV I 3]
    \<and> h1 ! r = [IntV I 3, IntV I 2, IntV I 1]
    \<and> take 1 h1 = [[IntV I 1, IntV I 2, IntV I 3]])"
proof -
  let ?h = "[[IntV I 1, IntV I 2, IntV I 3]]"
  have h: "(0::nat) < length ?h" by simp
  from Reverse_involution[OF h] obtain r h1 r2 h2 where
    a: "Reverse ?h 0 = Inr (r, h1)" "Reverse h1 r = Inr (r2, h2)" "h2 ! r2 = ?h ! 0"
       "length (h1 ! r) = length (?h ! 0)"
       "\<forall>k < length (?h ! 0). h1 ! r ! k = ?h ! 0 ! (length (?h ! 0) - 1 - k)"
       "take (length ?h) h1 = ?h"
    by blast
  have "h1 ! r ! 0 = IntV I 3" "h1 ! r ! 1 = IntV I 2" "h1 ! r ! 2 = IntV I 1"
    using a(5) by simp_all
  moreover have "length (h1 ! r) = 3" using a(4) by simp
  ultimately have "h1 ! r = [IntV I 3, IntV I 2, IntV I 1]"
    by (intro nth_equalityI) (auto simp: less_Suc_eq numeral_3_eq_3 numeral_2_eq_2)
  then show ?thesis using a h by auto
qed

end
